theory Spec2Isabelle
  imports Complex_Main "HOL-Library.Multiset"
begin

section \<open>Zone planner engine: the data model\<close>

text \<open>
  The zone planner is a module of pure TypeScript functions over JavaScript numbers.
  Coordinates of points of interest are finite numbers and are modelled as \<open>real\<close>
  (rounding of IEEE doubles is not modelled). The values \<open>Infinity\<close>,
  \<open>-Infinity\<close> and \<open>NaN\<close>, which the bounding-box loops and the comparators
  can hold, are constructors of the type \<open>number\<close>.
\<close>

datatype number = NaN | NegInfinity | Finite real | Infinity

text \<open>The comparisons \<open>a < b\<close>, \<open>a > b\<close> and \<open>a <= b\<close> of JavaScript: false whenever an
  operand is \<open>NaN\<close>.\<close>

fun js_lt :: "number \<Rightarrow> number \<Rightarrow> bool" where
  "js_lt NaN b = False"
| "js_lt a NaN = False"
| "js_lt (Finite x) (Finite y) = (x < y)"
| "js_lt NegInfinity b = (b \<noteq> NegInfinity)"
| "js_lt a Infinity = (a \<noteq> Infinity)"
| "js_lt a b = False"

definition js_gt :: "number \<Rightarrow> number \<Rightarrow> bool" where
  "js_gt a b = js_lt b a"

definition js_le :: "number \<Rightarrow> number \<Rightarrow> bool" where
  "js_le a b = (a \<noteq> NaN \<and> b \<noteq> NaN \<and> (a = b \<or> js_lt a b))"

text \<open>Subtraction \<open>a - b\<close> and \<open>Math.abs\<close>.\<close>

fun js_sub :: "number \<Rightarrow> number \<Rightarrow> number" where
  "js_sub NaN b = NaN"
| "js_sub a NaN = NaN"
| "js_sub (Finite x) (Finite y) = Finite (x - y)"
| "js_sub Infinity Infinity = NaN"
| "js_sub NegInfinity NegInfinity = NaN"
| "js_sub Infinity b = Infinity"
| "js_sub NegInfinity b = NegInfinity"
| "js_sub (Finite x) Infinity = NegInfinity"
| "js_sub (Finite x) NegInfinity = Infinity"

fun js_abs :: "number \<Rightarrow> number" where
  "js_abs NaN = NaN"
| "js_abs NegInfinity = Infinity"
| "js_abs Infinity = Infinity"
| "js_abs (Finite x) = Finite \<bar>x\<bar>"

text \<open>
  Subtraction as the arithmetic of the engine computes it. The difference of two finite
  numbers is rounded: \<open>fl\<close> maps the exact difference to the number that the
  subtraction returns. For IEEE doubles \<open>fl\<close> is rounding to the nearest double
  (\<open>Infinity\<close> or \<open>-Infinity\<close> on overflow); \<open>Finite\<close> is exact arithmetic, and
  \<open>js_sub\<close> is \<open>js_sub_with Finite\<close>.
\<close>

fun js_sub_with :: "(real \<Rightarrow> number) \<Rightarrow> number \<Rightarrow> number \<Rightarrow> number" where
  "js_sub_with fl NaN b = NaN"
| "js_sub_with fl a NaN = NaN"
| "js_sub_with fl (Finite x) (Finite y) = fl (x - y)"
| "js_sub_with fl Infinity Infinity = NaN"
| "js_sub_with fl NegInfinity NegInfinity = NaN"
| "js_sub_with fl Infinity b = Infinity"
| "js_sub_with fl NegInfinity b = NegInfinity"
| "js_sub_with fl (Finite x) Infinity = NegInfinity"
| "js_sub_with fl (Finite x) NegInfinity = Infinity"

text \<open>The interface \<open>POILike\<close>: any record with numeric \<open>lat\<close> and \<open>lng\<close>; further
  fields of the caller's records are the extension part of the record scheme.
  \<open>Coordinate\<close> (of the types module) has the same two fields.\<close>

record POILike =
  lat :: real
  lng :: real

type_synonym Coordinate = POILike

record Bounds =
  north :: number
  south :: number
  east :: number
  west :: number

record MapSize =
  width :: real
  height :: real

text \<open>\<open>ZoneConfig\<close>: every option may be absent. \<open>Required<ZoneConfig>\<close> is
  \<open>RequiredZoneConfig\<close>. The two sizes count points and are natural numbers.\<close>

record ZoneConfig =
  minPoisPerZone_opt :: "nat option"
  maxPoisPerZone_opt :: "nat option"
  clusterRadiusMeters_opt :: "real option"
  mapSize_opt :: "MapSize option"

record RequiredZoneConfig =
  minPoisPerZone :: nat
  maxPoisPerZone :: nat
  clusterRadiusMeters :: real
  mapSize :: MapSize

text \<open>\<open>Zone\<close>; the field \<open>id\<close> is \<open>zone_id\<close> here. Indices are positions of the
  caller's array.\<close>

record Zone =
  zone_id :: string
  poiIndices :: "nat list"
  bounds :: Bounds
  center :: Coordinate
  zoom :: number

definition DEFAULT_CONFIG :: RequiredZoneConfig where
  "DEFAULT_CONFIG =
     \<lparr>minPoisPerZone = 3, maxPoisPerZone = 10, clusterRadiusMeters = 1000,
      mapSize = \<lparr>width = 400, height = 600\<rparr>\<rparr>"

definition EARTH_RADIUS_METERS :: real where
  "EARTH_RADIUS_METERS = 6371000"

text \<open>The object spread \<open>{...DEFAULT_CONFIG, ...config}\<close> of \<open>planZones\<close>: an option the
  caller gives replaces the default.\<close>

definition mergeConfig :: "ZoneConfig option \<Rightarrow> RequiredZoneConfig" where
  "mergeConfig config =
     (case config of
        None \<Rightarrow> DEFAULT_CONFIG
      | Some c \<Rightarrow>
          \<lparr>minPoisPerZone =
             (case minPoisPerZone_opt c of None \<Rightarrow> minPoisPerZone DEFAULT_CONFIG | Some v \<Rightarrow> v),
           maxPoisPerZone =
             (case maxPoisPerZone_opt c of None \<Rightarrow> maxPoisPerZone DEFAULT_CONFIG | Some v \<Rightarrow> v),
           clusterRadiusMeters =
             (case clusterRadiusMeters_opt c of
                None \<Rightarrow> clusterRadiusMeters DEFAULT_CONFIG | Some v \<Rightarrow> v),
           mapSize = (case mapSize_opt c of None \<Rightarrow> mapSize DEFAULT_CONFIG | Some v \<Rightarrow> v)\<rparr>)"

section \<open>Array.prototype.sort\<close>

text \<open>
  \<open>xs.sort(cmp)\<close> is a stable sort: \<open>x\<close> goes after \<open>y\<close> exactly when the comparator's
  value \<open>cmp x y\<close> is greater than zero; a value of \<open>NaN\<close> counts as zero. For a
  consistent comparator every stable sort returns the same array, and \<open>js_sort\<close>, the
  stable insertion sort, is that array: this is the case of the two sorts of the
  clustering stage, by latitude and by distance. For a comparator that is not consistent
  the language leaves the order to the engine. The comparator of the zones is such a
  comparator, so the sort of the zones is a parameter \<open>srt\<close> of \<open>planZonesWith\<close>;
  \<open>js_sort\<close> there is one engine among others.
\<close>

fun js_insert :: "('a \<Rightarrow> 'a \<Rightarrow> number) \<Rightarrow> 'a \<Rightarrow> 'a list \<Rightarrow> 'a list" where
  "js_insert cmp x [] = [x]"
| "js_insert cmp x (y # ys) =
     (if js_gt (cmp x y) (Finite 0) then y # js_insert cmp x ys else x # y # ys)"

definition js_sort :: "('a \<Rightarrow> 'a \<Rightarrow> number) \<Rightarrow> 'a list \<Rightarrow> 'a list" where
  "js_sort cmp xs = foldr (js_insert cmp) xs []"

section \<open>Distance calculation\<close>

definition toRad :: "real \<Rightarrow> real" where
  "toRad deg = (deg * pi) / 180"

text \<open>\<open>Math.atan2(y, x)\<close> on finite arguments.\<close>

definition atan2 :: "real \<Rightarrow> real \<Rightarrow> real" where
  "atan2 y x =
     (if 0 < x then arctan (y / x)
      else if x < 0 then (if 0 \<le> y then arctan (y / x) + pi else arctan (y / x) - pi)
      else if 0 < y then pi / 2
      else if y < 0 then - (pi / 2)
      else 0)"

definition haversineDistance :: "real \<Rightarrow> real \<Rightarrow> real \<Rightarrow> real \<Rightarrow> real" where
  "haversineDistance lat1 lng1 lat2 lng2 =
     (let dLat = toRad (lat2 - lat1);
          dLng = toRad (lng2 - lng1);
          a = sin (dLat / 2) * sin (dLat / 2) +
              cos (toRad lat1) * cos (toRad lat2) * sin (dLng / 2) * sin (dLng / 2);
          c = 2 * atan2 (sqrt a) (sqrt (1 - a))
      in EARTH_RADIUS_METERS * c)"

section \<open>Clustering algorithm\<close>

text \<open>The candidates of a seed: the indices, in sorted order, that are not assigned and lie
  within the cluster radius of the seed, each with its distance.\<close>

definition findCandidates ::
  "('a POILike_scheme) list \<Rightarrow> real \<Rightarrow> nat list \<Rightarrow> nat set \<Rightarrow> nat \<Rightarrow> (nat \<times> real) list" where
  "findCandidates pois radius sortedIndices assigned seedIndex =
     map (\<lambda>candidateIndex.
            (candidateIndex,
             haversineDistance (lat (pois ! seedIndex)) (lng (pois ! seedIndex))
               (lat (pois ! candidateIndex)) (lng (pois ! candidateIndex))))
       (filter (\<lambda>candidateIndex.
            candidateIndex \<notin> assigned \<and>
            haversineDistance (lat (pois ! seedIndex)) (lng (pois ! seedIndex))
              (lat (pois ! candidateIndex)) (lng (pois ! candidateIndex)) \<le> radius)
          sortedIndices)"

text \<open>The loop that adds sorted candidates to the cluster until it has the maximal size.\<close>

fun addCandidates ::
  "nat \<Rightarrow> (nat \<times> real) list \<Rightarrow> nat list \<times> nat set \<Rightarrow> nat list \<times> nat set" where
  "addCandidates maxPois [] (cluster, assigned) = (cluster, assigned)"
| "addCandidates maxPois (candidate # candidates) (cluster, assigned) =
     (if length cluster \<ge> maxPois then (cluster, assigned)
      else addCandidates maxPois candidates
             (cluster @ [fst candidate], insert (fst candidate) assigned))"

text \<open>The loop over the seeds, with the set \<open>assigned\<close> and the array \<open>clusters\<close> as
  its state.\<close>

fun seedLoop ::
  "('a POILike_scheme) list \<Rightarrow> RequiredZoneConfig \<Rightarrow> nat list \<Rightarrow> nat list \<Rightarrow>
   nat set \<times> nat list list \<Rightarrow> nat list list" where
  "seedLoop pois config sortedIndices [] (assigned, clusters) = clusters"
| "seedLoop pois config sortedIndices (seedIndex # rest) (assigned, clusters) =
     (if seedIndex \<in> assigned then seedLoop pois config sortedIndices rest (assigned, clusters)
      else
        let assigned1 = insert seedIndex assigned;
            candidates =
              findCandidates pois (clusterRadiusMeters config) sortedIndices assigned1 seedIndex;
            sortedCandidates = js_sort (\<lambda>a b. Finite (snd a - snd b)) candidates;
            (cluster, assigned2) =
              addCandidates (maxPoisPerZone config) sortedCandidates ([seedIndex], assigned1)
        in seedLoop pois config sortedIndices rest (assigned2, clusters @ [cluster]))"

section \<open>Merging small clusters\<close>

text \<open>The centre of a cluster: the means of the latitudes and of the longitudes of its points.
  The engine calls it on clusters that hold at least their seed and only indices of the
  points array; the quotient \<open>0 / 0\<close> of an empty cluster (\<open>NaN\<close> in JavaScript) and a read
  past the end of the array are outside the model.\<close>

definition getClusterCenter :: "('a POILike_scheme) list \<Rightarrow> nat list \<Rightarrow> Coordinate" where
  "getClusterCenter pois cluster =
     (let lats = map (\<lambda>i. lat (pois ! i)) cluster;
          lngs = map (\<lambda>i. lng (pois ! i)) cluster
      in \<lparr>lat = foldl (+) 0 lats / real (length lats),
          lng = foldl (+) 0 lngs / real (length lngs)\<rparr>)"

text \<open>One step of the inner loop over \<open>j\<close>; its state is \<open>bestMergeIndex\<close> (\<open>None\<close> for
  \<open>-1\<close>) and \<open>bestDistance\<close>.\<close>

definition bestStep ::
  "('a POILike_scheme) list \<Rightarrow> RequiredZoneConfig \<Rightarrow> nat list list \<Rightarrow> nat \<Rightarrow> nat \<Rightarrow>
   nat option \<times> number \<Rightarrow> nat option \<times> number" where
  "bestStep pois config workingClusters i j best =
     (if i = j then best
      else if length (workingClusters ! i) + length (workingClusters ! j) > maxPoisPerZone config
      then best
      else
        let centerI = getClusterCenter pois (workingClusters ! i);
            centerJ = getClusterCenter pois (workingClusters ! j);
            distance = haversineDistance (lat centerI) (lng centerI) (lat centerJ) (lng centerJ)
        in if js_lt (Finite distance) (snd best) \<and> distance \<le> clusterRadiusMeters config * 3
           then (Some j, Finite distance)
           else best)"

definition findBestMerge ::
  "('a POILike_scheme) list \<Rightarrow> RequiredZoneConfig \<Rightarrow> nat list list \<Rightarrow> nat \<Rightarrow>
   nat option \<times> number" where
  "findBestMerge pois config workingClusters i =
     foldl (\<lambda>best j. bestStep pois config workingClusters i j best) (None, Infinity)
       [0 ..< length workingClusters]"

text \<open>\<open>workingClusters.splice(k, 1)\<close>.\<close>

definition splice1 :: "nat \<Rightarrow> 'b list \<Rightarrow> 'b list" where
  "splice1 k xs = take k xs @ drop (Suc k) xs"

text \<open>The loop over \<open>i\<close>, from \<open>i\<close> on: \<open>Some\<close> of the new array when a merge was made (the
  loop breaks with \<open>changed = true\<close>), \<open>None\<close> when the pass ends with no merge.\<close>

function mergeScan ::
  "('a POILike_scheme) list \<Rightarrow> RequiredZoneConfig \<Rightarrow> nat list list \<Rightarrow> nat \<Rightarrow>
   nat list list option" where
  "mergeScan pois config workingClusters i =
     (if \<not> i < length workingClusters then None
      else if length (workingClusters ! i) \<ge> minPoisPerZone config
      then mergeScan pois config workingClusters (Suc i)
      else
        (case fst (findBestMerge pois config workingClusters i) of
           None \<Rightarrow> mergeScan pois config workingClusters (Suc i)
         | Some bestMergeIndex \<Rightarrow>
             Some (splice1 bestMergeIndex
                     (workingClusters[i := workingClusters ! i @ workingClusters ! bestMergeIndex]))))"
  by pat_completeness auto
termination
  by (relation "measure (\<lambda>(pois, config, workingClusters, i). length workingClusters - i)") auto

declare mergeScan.simps [simp del]

text \<open>The \<open>while (changed)\<close> loop: a pass that merges restarts the scan on the new
  array; a pass that merges nothing ends the loop.\<close>

function mergeWhile ::
  "('a POILike_scheme) list \<Rightarrow> RequiredZoneConfig \<Rightarrow> nat list list \<Rightarrow> nat list list" where
  "mergeWhile pois config workingClusters =
     (case mergeScan pois config workingClusters 0 of
        None \<Rightarrow> workingClusters
      | Some merged \<Rightarrow> mergeWhile pois config merged)"
  by pat_completeness auto

lemma bestStep_index:
  assumes "fst best = None \<or> (\<exists>k. fst best = Some k \<and> k < length workingClusters \<and> k \<noteq> i)"
    and "j < length workingClusters"
  shows "fst (bestStep pois config workingClusters i j best) = None \<or>
         (\<exists>k. fst (bestStep pois config workingClusters i j best) = Some k \<and>
              k < length workingClusters \<and> k \<noteq> i)"
  using assms by (auto simp: bestStep_def Let_def)

lemma foldl_bestStep_index:
  assumes "fst best = None \<or> (\<exists>k. fst best = Some k \<and> k < length workingClusters \<and> k \<noteq> i)"
    and "set js \<subseteq> {..< length workingClusters}"
  shows "fst (foldl (\<lambda>best j. bestStep pois config workingClusters i j best) best js) = None \<or>
         (\<exists>k. fst (foldl (\<lambda>best j. bestStep pois config workingClusters i j best) best js) = Some k \<and>
              k < length workingClusters \<and> k \<noteq> i)"
  using assms
proof (induction js arbitrary: best)
  case Nil
  then show ?case by simp
next
  case (Cons j js)
  have "j < length workingClusters" using Cons.prems(2) by simp
  from bestStep_index [OF Cons.prems(1) this]
  have "fst (bestStep pois config workingClusters i j best) = None \<or>
        (\<exists>k. fst (bestStep pois config workingClusters i j best) = Some k \<and>
             k < length workingClusters \<and> k \<noteq> i)" .
  moreover have "set js \<subseteq> {..< length workingClusters}" using Cons.prems(2) by simp
  ultimately show ?case using Cons.IH by simp
qed

lemma findBestMerge_index:
  "fst (findBestMerge pois config workingClusters i) = Some k \<Longrightarrow>
   k < length workingClusters \<and> k \<noteq> i"
proof -
  assume found: "fst (findBestMerge pois config workingClusters i) = Some k"
  have "set [0 ..< length workingClusters] \<subseteq> {..< length workingClusters}" by auto
  from foldl_bestStep_index [of "(None, Infinity)" workingClusters i
      "[0 ..< length workingClusters]" pois config, OF _ this] found
  show ?thesis by (auto simp: findBestMerge_def)
qed

lemma length_splice1: "k < length xs \<Longrightarrow> Suc (length (splice1 k xs)) = length xs"
  by (auto simp: splice1_def)

lemma mergeScan_length:
  "mergeScan pois config workingClusters i = Some merged \<Longrightarrow>
   Suc (length merged) = length workingClusters"
proof (induction pois config workingClusters i rule: mergeScan.induct)
  case (1 pois config workingClusters i)
  show ?case
  proof (cases "i < length workingClusters")
    case False
    with "1.prems" show ?thesis by (simp add: mergeScan.simps [of pois config workingClusters i])
  next
    case inrange: True
    show ?thesis
    proof (cases "length (workingClusters ! i) \<ge> minPoisPerZone config")
      case True
      with inrange "1.prems" "1.IH"(1) show ?thesis
        by (simp add: mergeScan.simps [of pois config workingClusters i])
    next
      case small: False
      show ?thesis
      proof (cases "fst (findBestMerge pois config workingClusters i)")
        case None
        with inrange small "1.prems" "1.IH"(2) show ?thesis
          by (simp add: mergeScan.simps [of pois config workingClusters i])
      next
        case (Some k)
        then have "k < length workingClusters" using findBestMerge_index by blast
        moreover from Some inrange small "1.prems"
        have "merged = splice1 k (workingClusters[i := workingClusters ! i @ workingClusters ! k])"
          by (simp add: mergeScan.simps [of pois config workingClusters i])
        ultimately show ?thesis by (simp add: length_splice1)
      qed
    qed
  qed
qed

termination mergeWhile
proof (relation "measure (\<lambda>(pois, config, workingClusters). length workingClusters)")
  show "wf (measure (\<lambda>(pois, config, workingClusters). length workingClusters))" by simp
next
  fix pois :: "('a POILike_scheme) list" and config workingClusters merged
  assume "mergeScan pois config workingClusters 0 = Some merged"
  then have "Suc (length merged) = length workingClusters" by (rule mergeScan_length)
  then show "((pois, config, merged), (pois, config, workingClusters))
             \<in> measure (\<lambda>(pois, config, workingClusters). length workingClusters)"
    by simp
qed

declare mergeWhile.simps [simp del]

definition mergeSmallClusters ::
  "nat list list \<Rightarrow> ('a POILike_scheme) list \<Rightarrow> RequiredZoneConfig \<Rightarrow> nat list list" where
  "mergeSmallClusters clusters pois config =
     (if length clusters \<le> 1 then clusters else mergeWhile pois config clusters)"

definition clusterPOIs ::
  "('a POILike_scheme) list \<Rightarrow> RequiredZoneConfig \<Rightarrow> nat list list" where
  "clusterPOIs pois config =
     (if length pois = 0 then []
      else
        let sortedIndices =
              js_sort (\<lambda>a b. Finite (lat (pois ! b) - lat (pois ! a))) [0 ..< length pois];
            clusters = seedLoop pois config sortedIndices sortedIndices ({}, [])
        in mergeSmallClusters clusters pois config)"

section \<open>Bounding boxes\<close>

text \<open>
  Modelled from the spec: \<open>calculateBounds\<close> of the map planner module, which the zone
  planner imports, is not among the sources. The spec gives it as the minimal and
  maximal latitude and longitude over the points; the loop below is the one of the
  function of the same name in the races module of the repository.
\<close>

definition boundsStep :: "Bounds \<Rightarrow> 'a POILike_scheme \<Rightarrow> Bounds" where
  "boundsStep b poi =
     \<lparr>north = (if js_gt (Finite (lat poi)) (north b) then Finite (lat poi) else north b),
      south = (if js_lt (Finite (lat poi)) (south b) then Finite (lat poi) else south b),
      east = (if js_gt (Finite (lng poi)) (east b) then Finite (lng poi) else east b),
      west = (if js_lt (Finite (lng poi)) (west b) then Finite (lng poi) else west b)\<rparr>"

definition initialBounds :: Bounds where
  "initialBounds = \<lparr>north = NegInfinity, south = Infinity, east = NegInfinity, west = Infinity\<rparr>"

definition calculateBounds :: "('a POILike_scheme) list \<Rightarrow> Bounds" where
  "calculateBounds pois = foldl boundsStep initialBounds pois"

definition overallStep :: "Bounds \<Rightarrow> Zone \<Rightarrow> Bounds" where
  "overallStep b zone =
     \<lparr>north = (if js_gt (north (bounds zone)) (north b) then north (bounds zone) else north b),
      south = (if js_lt (south (bounds zone)) (south b) then south (bounds zone) else south b),
      east = (if js_gt (east (bounds zone)) (east b) then east (bounds zone) else east b),
      west = (if js_lt (west (bounds zone)) (west b) then west (bounds zone) else west b)\<rparr>"

text \<open>\<open>calculateOverallBounds\<close>: \<open>None\<close> is \<open>null\<close>.\<close>

definition calculateOverallBounds :: "Zone list \<Rightarrow> Bounds option" where
  "calculateOverallBounds zones =
     (if length zones = 0 then None else Some (foldl overallStep initialBounds zones))"

section \<open>Main API\<close>

text \<open>The decimal digits of an array index, as the template literal writes them.\<close>

fun string_of_nat :: "nat \<Rightarrow> string" where
  "string_of_nat n =
     (if n < 10 then [''0123456789'' ! n]
      else string_of_nat (n div 10) @ [''0123456789'' ! (n mod 10)])"

definition zoneName :: "nat \<Rightarrow> string" where
  "zoneName index = ''zone-'' @ string_of_nat index"

text \<open>
  The comparator of the zones' sort. Its subtractions are those of the engine's
  arithmetic (\<open>fl\<close>), and \<open>c\<close> is the number that the literal \<open>0.01\<close> denotes there.
  \<open>zoneCompare\<close> is the comparator in exact arithmetic.
\<close>

definition zoneCompareWith :: "(real \<Rightarrow> number) \<Rightarrow> number \<Rightarrow> Zone \<Rightarrow> Zone \<Rightarrow> number" where
  "zoneCompareWith fl c a b =
     (let aNorth = north (bounds a);
          bNorth = north (bounds b)
      in if js_gt (js_abs (js_sub_with fl aNorth bNorth)) c then js_sub_with fl bNorth aNorth
         else js_sub_with fl (west (bounds a)) (west (bounds b)))"

definition zoneCompare :: "Zone \<Rightarrow> Zone \<Rightarrow> number" where
  "zoneCompare a b = zoneCompareWith Finite (Finite 0.01) a b"

text \<open>
  \<open>planZones\<close>. The functions \<open>calculateCenter\<close> and \<open>calculateZoom\<close> of the map
  planner module are not among the sources and are parameters here. \<open>None\<close> is an
  absent \<open>config\<close>.

  \<open>planZonesWith\<close> is the function with the engine's part as parameters: \<open>srt\<close> is
  the engine's \<open>Array.prototype.sort\<close> at the sort of the zones, and \<open>cmp\<close> is the
  comparator as the engine's arithmetic evaluates it. \<open>planZones\<close> is the function on the
  engine that sorts by stable insertion and computes exactly.
\<close>

definition buildZone ::
  "(Bounds \<Rightarrow> Coordinate) \<Rightarrow> (Bounds \<Rightarrow> MapSize \<Rightarrow> number) \<Rightarrow> ('a POILike_scheme) list \<Rightarrow>
   RequiredZoneConfig \<Rightarrow> nat \<times> nat list \<Rightarrow> Zone" where
  "buildZone calculateCenter calculateZoom pois mergedConfig entry =
     (let index = fst entry;
          indices = snd entry;
          clusterPois = map (\<lambda>i. pois ! i) indices;
          coordinates = map (\<lambda>p. \<lparr>lat = lat p, lng = lng p\<rparr>) clusterPois;
          bnds = calculateBounds coordinates
      in \<lparr>zone_id = zoneName index, poiIndices = indices, bounds = bnds,
          center = calculateCenter bnds, zoom = calculateZoom bnds (mapSize mergedConfig)\<rparr>)"

definition planZonesWith ::
  "((Zone \<Rightarrow> Zone \<Rightarrow> number) \<Rightarrow> Zone list \<Rightarrow> Zone list) \<Rightarrow> (Zone \<Rightarrow> Zone \<Rightarrow> number) \<Rightarrow>
   (Bounds \<Rightarrow> Coordinate) \<Rightarrow> (Bounds \<Rightarrow> MapSize \<Rightarrow> number) \<Rightarrow> ('a POILike_scheme) list \<Rightarrow>
   ZoneConfig option \<Rightarrow> Zone list" where
  "planZonesWith srt cmp calculateCenter calculateZoom pois config =
     (if length pois = 0 then []
      else
        let mergedConfig = mergeConfig config;
            clusters = clusterPOIs pois mergedConfig;
            zones = map (buildZone calculateCenter calculateZoom pois mergedConfig)
                      (enumerate 0 clusters);
            sorted = srt cmp zones
        in map (\<lambda>(index, zone). zone\<lparr>zone_id := zoneName index\<rparr>) (enumerate 0 sorted))"

definition planZones ::
  "(Bounds \<Rightarrow> Coordinate) \<Rightarrow> (Bounds \<Rightarrow> MapSize \<Rightarrow> number) \<Rightarrow> ('a POILike_scheme) list \<Rightarrow>
   ZoneConfig option \<Rightarrow> Zone list" where
  "planZones calculateCenter calculateZoom pois config =
     planZonesWith js_sort zoneCompare calculateCenter calculateZoom pois config"

text \<open>\<open>getZonePOIs\<close>: reading an array past its end gives \<open>undefined\<close>, here \<open>None\<close>.\<close>

definition getZonePOIs :: "'p list \<Rightarrow> Zone \<Rightarrow> 'p option list" where
  "getZonePOIs pois zone =
     map (\<lambda>i. if i < length pois then Some (pois ! i) else None) (poiIndices zone)"

section \<open>Auxiliary definitions\<close>

text \<open>The update of an upper and of a lower accumulator of the bounding-box loops.\<close>

definition accMax :: "number \<Rightarrow> number \<Rightarrow> number" where
  "accMax acc x = (if js_gt x acc then x else acc)"

definition accMin :: "number \<Rightarrow> number \<Rightarrow> number" where
  "accMin acc x = (if js_lt x acc then x else acc)"

text \<open>A zone to evaluate the functions on.\<close>

definition zoneA :: Zone where
  "zoneA = \<lparr>zone_id = ''zone-0'', poiIndices = [0],
     bounds = \<lparr>north = Finite 2, south = Finite 1, east = Finite 4, west = Finite 3\<rparr>,
     center = \<lparr>lat = 3 / 2, lng = 7 / 2\<rparr>, zoom = Finite 15\<rparr>"

text \<open>The cluster that a seed opens.\<close>

definition seedCluster ::
  "('a POILike_scheme) list \<Rightarrow> RequiredZoneConfig \<Rightarrow> nat list \<Rightarrow> nat set \<Rightarrow> nat \<Rightarrow> nat list" where
  "seedCluster pois config sortedIndices assigned seedIndex =
     seedIndex #
       map fst (take (maxPoisPerZone config - 1)
         (js_sort (\<lambda>a b. Finite (snd a - snd b))
            (findCandidates pois (clusterRadiusMeters config) sortedIndices
               (insert seedIndex assigned) seedIndex)))"

text \<open>The distance between the centres of two clusters, and the clusters \<open>j\<close> that cluster
  \<open>i\<close> may merge with: another cluster, with a joint size within the maximum and a centre
  within three cluster radii.\<close>

definition centroidDistance :: "('a POILike_scheme) list \<Rightarrow> nat list list \<Rightarrow> nat \<Rightarrow> nat \<Rightarrow> real" where
  "centroidDistance pois workingClusters i j =
     (let centerI = getClusterCenter pois (workingClusters ! i);
          centerJ = getClusterCenter pois (workingClusters ! j)
      in haversineDistance (lat centerI) (lng centerI) (lat centerJ) (lng centerJ))"

definition eligible ::
  "('a POILike_scheme) list \<Rightarrow> RequiredZoneConfig \<Rightarrow> nat list list \<Rightarrow> nat \<Rightarrow> nat \<Rightarrow> bool" where
  "eligible pois config workingClusters i j =
     (j < length workingClusters \<and> j \<noteq> i \<and>
      length (workingClusters ! i) + length (workingClusters ! j) \<le> maxPoisPerZone config \<and>
      centroidDistance pois workingClusters i j \<le> 3 * clusterRadiusMeters config)"

text \<open>The clusters of the greedy stage, before small clusters are merged.\<close>

definition greedyClusters ::
  "('a POILike_scheme) list \<Rightarrow> RequiredZoneConfig \<Rightarrow> nat list list" where
  "greedyClusters pois config =
     (let sortedIndices =
            js_sort (\<lambda>a b. Finite (lat (pois ! b) - lat (pois ! a))) [0 ..< length pois]
      in seedLoop pois config sortedIndices sortedIndices ({}, []))"

text \<open>The \<open>while\<close> loop with a bound on the number of its passes: \<open>None\<close> when the bound is
  reached before the loop ends.\<close>

fun mergeWhileFuel ::
  "nat \<Rightarrow> ('a POILike_scheme) list \<Rightarrow> RequiredZoneConfig \<Rightarrow> nat list list \<Rightarrow>
   nat list list option" where
  "mergeWhileFuel 0 pois config workingClusters = None"
| "mergeWhileFuel (Suc fuel) pois config workingClusters =
     (case mergeScan pois config workingClusters 0 of
        None \<Rightarrow> Some workingClusters
      | Some merged \<Rightarrow> mergeWhileFuel fuel pois config merged)"

text \<open>A point to evaluate the engine on.\<close>

definition examplePoint :: POILike where
  "examplePoint = \<lparr>lat = 43.65, lng = -79.38\<rparr>"

text \<open>
  Modelled from the spec: \<open>calculateCenter\<close> and \<open>calculateZoom\<close> of the map planner
  module are not among the sources. The spec gives the centre as the midpoint of the
  bounds and leaves the zoom formula open; \<open>midpointCenter\<close> and a constant zoom level
  stand for them where the engine is evaluated on an input.
\<close>

definition midpointCenter :: "Bounds \<Rightarrow> Coordinate" where
  "midpointCenter b =
     (case (north b, south b, east b, west b) of
        (Finite n, Finite s, Finite e, Finite w) \<Rightarrow> \<lparr>lat = (n + s) / 2, lng = (e + w) / 2\<rparr>
      | _ \<Rightarrow> \<lparr>lat = 0, lng = 0\<rparr>)"

definition constantZoom :: "Bounds \<Rightarrow> MapSize \<Rightarrow> number" where
  "constantZoom b viewport = Finite 15"

text \<open>Addition \<open>a + b\<close>.\<close>

fun js_add :: "number \<Rightarrow> number \<Rightarrow> number" where
  "js_add NaN b = NaN"
| "js_add a NaN = NaN"
| "js_add (Finite x) (Finite y) = Finite (x + y)"
| "js_add Infinity NegInfinity = NaN"
| "js_add NegInfinity Infinity = NaN"
| "js_add Infinity b = Infinity"
| "js_add NegInfinity b = NegInfinity"
| "js_add (Finite x) Infinity = Infinity"
| "js_add (Finite x) NegInfinity = NegInfinity"

text \<open>The comparator of the zones' sort reads the bounds only.\<close>

definition boundsCompare :: "Bounds \<Rightarrow> Bounds \<Rightarrow> number" where
  "boundsCompare a b =
     (if js_gt (js_abs (js_sub (north a) (north b))) (Finite 0.01) then js_sub (north b) (north a)
      else js_sub (west a) (west b))"

text \<open>The order of two zones with bounds \<open>A\<close> and \<open>B\<close> as the spec states it:
  \<open>A.north > B.north + 0.01\<close>, or \<open>|A.north - B.north| \<le> 0.01\<close> and
  \<open>A.west \<le> B.west\<close>.\<close>

definition readingOrder :: "Bounds \<Rightarrow> Bounds \<Rightarrow> bool" where
  "readingOrder A B =
     (js_gt (north A) (js_add (north B) (Finite 0.01)) \<or>
      (js_le (js_abs (js_sub (north A) (north B))) (Finite 0.01) \<and> js_le (west A) (west B)))"

text \<open>Three points in a row that runs from the south-west to the north-east, one degree of
  longitude and 1/128 of a degree of latitude apart, and a configuration that gives every
  point a zone of its own. The coordinates and their differences are binary fractions,
  which the arithmetic of the engine holds exactly.\<close>

definition rowPoints :: "POILike list" where
  "rowPoints = [\<lparr>lat = 0, lng = 0\<rparr>, \<lparr>lat = 1 / 128, lng = 1\<rparr>, \<lparr>lat = 1 / 64, lng = 2\<rparr>]"

definition rowConfig :: "ZoneConfig option" where
  "rowConfig =
     Some \<lparr>minPoisPerZone_opt = Some 1, maxPoisPerZone_opt = Some 1,
           clusterRadiusMeters_opt = None, mapSize_opt = None\<rparr>"

text \<open>The value of a finite number.\<close>

fun realOf :: "number \<Rightarrow> real" where
  "realOf (Finite x) = x"
| "realOf a = 0"

text \<open>Two points on the meridian of Greenwich, the second one 10 m north of the first.\<close>

definition originPoint :: POILike where
  "originPoint = \<lparr>lat = 0, lng = 0\<rparr>"

definition northPoint :: POILike where
  "northPoint = \<lparr>lat = 1800 / (6371000 * pi), lng = 0\<rparr>"

text \<open>Clusters as the greedy stage builds them: none is empty, and every index is a position
  of the points array. On such clusters no centre is the quotient of an empty sum.\<close>

definition wellFormedClusters :: "'p list \<Rightarrow> nat list list \<Rightarrow> bool" where
  "wellFormedClusters pois w = (\<forall>c \<in> set w. c \<noteq> [] \<and> (\<forall>i \<in> set c. i < length pois))"

text \<open>The point on the meridian of Greenwich that lies \<open>m\<close> metres north of the equator.\<close>

definition metresNorth :: "real \<Rightarrow> POILike" where
  "metresNorth m = \<lparr>lat = m * 180 / (6371000 * pi), lng = 0\<rparr>"

text \<open>Three points on the meridian: the equator, 20 m and 10 m north of it.\<close>

definition meridianPoints :: "POILike list" where
  "meridianPoints = [metresNorth 0, metresNorth 20, metresNorth 10]"

text \<open>Two points 5000 m apart.\<close>

definition distantPoints :: "POILike list" where
  "distantPoints = [metresNorth 0, metresNorth 5000]"

text \<open>The sign of a comparator's value, as the sort reads it.\<close>

definition isNegative :: "number \<Rightarrow> bool" where
  "isNegative v = js_lt v (Finite 0)"

definition isPositive :: "number \<Rightarrow> bool" where
  "isPositive v = js_gt v (Finite 0)"

text \<open>
  A consistent comparator for the values of a set, as the language defines it: its value
  is never \<open>NaN\<close>; \<open>a =\<^sub>C\<^sub>F a\<close>; \<open>=\<^sub>C\<^sub>F\<close> is symmetric; \<open>=\<^sub>C\<^sub>F\<close>, \<open><\<^sub>C\<^sub>F\<close> and
  \<open>>\<^sub>C\<^sub>F\<close> are transitive. Here \<open>a <\<^sub>C\<^sub>F b\<close> is \<open>cmp a b < 0\<close>, \<open>a >\<^sub>C\<^sub>F b\<close> is
  \<open>cmp a b > 0\<close>, and \<open>a =\<^sub>C\<^sub>F b\<close> is neither.
\<close>

definition consistentComparator :: "('a \<Rightarrow> 'a \<Rightarrow> number) \<Rightarrow> 'a set \<Rightarrow> bool" where
  "consistentComparator cmp S =
     ((\<forall>a \<in> S. \<forall>b \<in> S. cmp a b \<noteq> NaN) \<and>
      (\<forall>a \<in> S. \<not> isNegative (cmp a a) \<and> \<not> isPositive (cmp a a)) \<and>
      (\<forall>a \<in> S. \<forall>b \<in> S.
         \<not> isNegative (cmp a b) \<and> \<not> isPositive (cmp a b) \<longrightarrow>
         \<not> isNegative (cmp b a) \<and> \<not> isPositive (cmp b a)) \<and>
      (\<forall>a \<in> S. \<forall>b \<in> S. \<forall>d \<in> S.
         \<not> isNegative (cmp a b) \<and> \<not> isPositive (cmp a b) \<and>
         \<not> isNegative (cmp b d) \<and> \<not> isPositive (cmp b d) \<longrightarrow>
         \<not> isNegative (cmp a d) \<and> \<not> isPositive (cmp a d)) \<and>
      (\<forall>a \<in> S. \<forall>b \<in> S. \<forall>d \<in> S.
         isNegative (cmp a b) \<and> isNegative (cmp b d) \<longrightarrow> isNegative (cmp a d)) \<and>
      (\<forall>a \<in> S. \<forall>b \<in> S. \<forall>d \<in> S.
         isPositive (cmp a b) \<and> isPositive (cmp b d) \<longrightarrow> isPositive (cmp a d)))"

text \<open>
  What the language requires of \<open>xs.sort(cmp)\<close>: the result is a permutation of the
  array, and when \<open>cmp\<close> is a consistent comparator for the elements, no element stands
  before one that the comparator places strictly before it. For a comparator that is not
  consistent the order is left to the engine.
\<close>

definition sortContract ::
  "(('a \<Rightarrow> 'a \<Rightarrow> number) \<Rightarrow> 'a list \<Rightarrow> 'a list) \<Rightarrow> ('a \<Rightarrow> 'a \<Rightarrow> number) \<Rightarrow> 'a list \<Rightarrow> bool" where
  "sortContract srt cmp xs =
     (mset (srt cmp xs) = mset xs \<and>
      (consistentComparator cmp (set xs) \<longrightarrow>
         sorted_wrt (\<lambda>a b. \<not> isNegative (cmp b a)) (srt cmp xs)))"

text \<open>The negation \<open>-a\<close>.\<close>

fun js_neg :: "number \<Rightarrow> number" where
  "js_neg NaN = NaN"
| "js_neg NegInfinity = Infinity"
| "js_neg Infinity = NegInfinity"
| "js_neg (Finite x) = Finite (- x)"

text \<open>
  The numbers of the engine and the laws of its subtraction. A real \<open>x\<close> is a number of
  the engine when rounding returns \<open>x\<close> itself. The laws are those of IEEE arithmetic
  with rounding to nearest: rounding never gives \<open>NaN\<close>, keeps zero, is monotone and odd,
  and the difference of two distinct numbers never rounds to zero.
\<close>

definition representable :: "(real \<Rightarrow> number) \<Rightarrow> real \<Rightarrow> bool" where
  "representable fl x = (fl x = Finite x)"

definition roundingLaws :: "(real \<Rightarrow> number) \<Rightarrow> bool" where
  "roundingLaws fl =
     ((\<forall>x. fl x \<noteq> NaN) \<and> fl 0 = Finite 0 \<and>
      (\<forall>x y. x \<le> y \<longrightarrow> js_le (fl x) (fl y)) \<and>
      (\<forall>x. fl (- x) = js_neg (fl x)) \<and>
      (\<forall>x y. representable fl x \<and> representable fl y \<and> x < y \<longrightarrow>
         js_lt (Finite 0) (fl (y - x))))"

text \<open>
  The row test of the comparator, \<open>Math.abs(aNorth - bNorth) > 0.01\<close>, on two bounding
  boxes, and the order of two zones with bounds \<open>A\<close> and \<open>B\<close> that the comparator aims
  at: the row test holds and \<open>A.north > B.north\<close>, or it fails and
  \<open>A.west \<le> B.west\<close>.
\<close>

definition rowFar :: "(real \<Rightarrow> number) \<Rightarrow> real \<Rightarrow> Bounds \<Rightarrow> Bounds \<Rightarrow> bool" where
  "rowFar fl c A B = js_gt (js_abs (js_sub_with fl (north A) (north B))) (Finite c)"

definition readingOrderWith :: "(real \<Rightarrow> number) \<Rightarrow> real \<Rightarrow> Bounds \<Rightarrow> Bounds \<Rightarrow> bool" where
  "readingOrderWith fl c A B =
     ((rowFar fl c A B \<and> js_gt (north A) (north B)) \<or>
      (\<not> rowFar fl c A B \<and> js_le (west A) (west B)))"

text \<open>The rows of the zones do not overlap: two zones that fail the row test with a third
  one fail it with each other.\<close>

definition rowsTransitive :: "(real \<Rightarrow> number) \<Rightarrow> real \<Rightarrow> Zone list \<Rightarrow> bool" where
  "rowsTransitive fl c zs =
     (\<forall>a \<in> set zs. \<forall>b \<in> set zs. \<forall>d \<in> set zs.
        \<not> rowFar fl c (bounds a) (bounds b) \<and> \<not> rowFar fl c (bounds b) (bounds d) \<longrightarrow>
        \<not> rowFar fl c (bounds a) (bounds d))"

text \<open>The zones of \<open>planZones\<close> before they are sorted.\<close>

definition builtZones ::
  "(Bounds \<Rightarrow> Coordinate) \<Rightarrow> (Bounds \<Rightarrow> MapSize \<Rightarrow> number) \<Rightarrow> ('a POILike_scheme) list \<Rightarrow>
   ZoneConfig option \<Rightarrow> Zone list" where
  "builtZones calculateCenter calculateZoom pois config =
     map (buildZone calculateCenter calculateZoom pois (mergeConfig config))
       (enumerate 0 (clusterPOIs pois (mergeConfig config)))"

text \<open>Bounds whose four edges are finite and whose north and west edges are numbers of the
  engine.\<close>

definition engineBounds :: "(real \<Rightarrow> number) \<Rightarrow> Bounds \<Rightarrow> bool" where
  "engineBounds fl B =
     (\<exists>n s e w. B = \<lparr>north = Finite n, south = Finite s, east = Finite e, west = Finite w\<rparr> \<and>
        representable fl n \<and> representable fl w)"

text \<open>Three points: two in one row, the eastern one first, and one a degree north of
  them.\<close>

definition gridPoints :: "POILike list" where
  "gridPoints = [\<lparr>lat = 1 / 256, lng = 1\<rparr>, \<lparr>lat = 0, lng = 0\<rparr>, \<lparr>lat = 1, lng = 0\<rparr>]"

section \<open>Facts about numbers\<close>

lemma js_lt_NaN [simp]: "js_lt a NaN = False" "js_lt NaN b = False"
  by (cases a; simp)+

lemma js_gt_simps [simp]:
  "js_gt (Finite x) (Finite y) = (y < x)"
  "js_gt a NaN = False" "js_gt NaN b = False"
  "js_gt (Finite x) NegInfinity" "js_gt (Finite x) Infinity = False"
  "js_gt NegInfinity b = False" "js_gt Infinity (Finite y)"
  "js_gt a Infinity = False"
  by (cases a; cases b; simp add: js_gt_def)+

lemma js_sub_with_Finite: "js_sub_with Finite a b = js_sub a b"
  by (cases a; cases b) simp_all

lemma js_lt_trans: "js_lt a b \<Longrightarrow> js_lt b c \<Longrightarrow> js_lt a c"
  by (cases a; cases b; cases c) auto

lemma js_lt_total: "a \<noteq> NaN \<Longrightarrow> b \<noteq> NaN \<Longrightarrow> js_lt a b \<or> a = b \<or> js_lt b a"
  by (cases a; cases b) auto

lemma js_lt_irrefl [simp]: "\<not> js_lt a a"
  by (cases a) auto

lemma js_lt_asym: "js_lt a b \<Longrightarrow> \<not> js_lt b a"
  by (cases a; cases b) auto

lemma accMax_not_NaN: "acc \<noteq> NaN \<Longrightarrow> accMax acc x \<noteq> NaN"
  by (auto simp: accMax_def)

lemma accMin_not_NaN: "acc \<noteq> NaN \<Longrightarrow> accMin acc x \<noteq> NaN"
  by (auto simp: accMin_def)

lemma foldl_accMax_upper:
  "acc \<noteq> NaN \<Longrightarrow>
   foldl accMax acc xs \<noteq> NaN \<and> \<not> js_lt (foldl accMax acc xs) acc \<and>
   (\<forall>x \<in> set xs. \<not> js_gt x (foldl accMax acc xs))"
proof (induction xs arbitrary: acc)
  case Nil
  then show ?case by simp
next
  case (Cons x xs)
  let ?a = "accMax acc x"
  let ?r = "foldl accMax ?a xs"
  have na: "?a \<noteq> NaN" using Cons.prems by (rule accMax_not_NaN)
  have mono: "\<not> js_lt ?a acc" by (auto simp: accMax_def js_gt_def dest: js_lt_asym)
  have xle: "\<not> js_lt ?a x" by (auto simp: accMax_def js_gt_def)
  from Cons.IH [OF na] have ih: "?r \<noteq> NaN" "\<not> js_lt ?r ?a" "\<forall>y \<in> set xs. \<not> js_gt y ?r"
    by auto
  have t1: "\<not> js_lt ?r acc"
    using ih(1,2) mono na Cons.prems js_lt_total js_lt_trans js_lt_asym by metis
  have t2: "\<not> js_lt ?r x"
    using ih(1,2) xle na js_lt_total js_lt_trans js_lt_asym js_lt_NaN by metis
  show ?case using ih t1 t2 by (simp add: js_gt_def)
qed

lemma foldl_accMin_lower:
  "acc \<noteq> NaN \<Longrightarrow>
   foldl accMin acc xs \<noteq> NaN \<and> \<not> js_lt acc (foldl accMin acc xs) \<and>
   (\<forall>x \<in> set xs. \<not> js_lt x (foldl accMin acc xs))"
proof (induction xs arbitrary: acc)
  case Nil
  then show ?case by simp
next
  case (Cons x xs)
  let ?a = "accMin acc x"
  let ?r = "foldl accMin ?a xs"
  have na: "?a \<noteq> NaN" using Cons.prems by (rule accMin_not_NaN)
  have mono: "\<not> js_lt acc ?a" by (auto simp: accMin_def dest: js_lt_asym)
  have xle: "\<not> js_lt x ?a" by (auto simp: accMin_def)
  from Cons.IH [OF na] have ih: "?r \<noteq> NaN" "\<not> js_lt ?a ?r" "\<forall>y \<in> set xs. \<not> js_lt y ?r"
    by auto
  have t1: "\<not> js_lt acc ?r"
    using ih(1,2) mono na Cons.prems js_lt_total js_lt_trans js_lt_asym by metis
  have t2: "\<not> js_lt x ?r"
    using ih(1,2) xle na js_lt_total js_lt_trans js_lt_asym js_lt_NaN by metis
  show ?case using ih t1 t2 by simp
qed

lemma overall_fields:
  "north (foldl overallStep b zones) = foldl accMax (north b) (map (\<lambda>z. north (bounds z)) zones)"
  "south (foldl overallStep b zones) = foldl accMin (south b) (map (\<lambda>z. south (bounds z)) zones)"
  "east (foldl overallStep b zones) = foldl accMax (east b) (map (\<lambda>z. east (bounds z)) zones)"
  "west (foldl overallStep b zones) = foldl accMin (west b) (map (\<lambda>z. west (bounds z)) zones)"
  by (induction zones arbitrary: b; simp add: overallStep_def accMax_def accMin_def)+

lemma bounds_fields:
  "north (foldl boundsStep b pois) = foldl accMax (north b) (map (\<lambda>p. Finite (lat p)) pois)"
  "south (foldl boundsStep b pois) = foldl accMin (south b) (map (\<lambda>p. Finite (lat p)) pois)"
  "east (foldl boundsStep b pois) = foldl accMax (east b) (map (\<lambda>p. Finite (lng p)) pois)"
  "west (foldl boundsStep b pois) = foldl accMin (west b) (map (\<lambda>p. Finite (lng p)) pois)"
  by (induction pois arbitrary: b; simp add: boundsStep_def accMax_def accMin_def)+

section \<open>The sort returns a permutation\<close>

lemma mset_js_insert: "mset (js_insert cmp x xs) = add_mset x (mset xs)"
  by (induction xs) auto

lemma mset_js_sort: "mset (js_sort cmp xs) = mset xs"
  by (induction xs) (auto simp: js_sort_def mset_js_insert)

lemma set_js_sort: "set (js_sort cmp xs) = set xs"
  using mset_js_sort [of cmp xs] by (metis set_mset_mset)

lemma length_js_sort: "length (js_sort cmp xs) = length xs"
  using mset_js_sort [of cmp xs] by (metis size_mset)

lemma distinct_js_sort: "distinct (js_sort cmp xs) = distinct xs"
  using mset_js_sort [of cmp xs] by (metis mset_eq_imp_distinct_iff)

lemma mset_map_js_sort: "mset (map f (js_sort cmp xs)) = mset (map f xs)"
  by (metis mset_js_sort mset_map)

section \<open>Greedy clustering\<close>

lemma addCandidates_eq:
  "addCandidates maxPois cs (cluster, assigned) =
     (cluster @ map fst (take (maxPois - length cluster) cs),
      assigned \<union> set (map fst (take (maxPois - length cluster) cs)))"
proof (induction cs arbitrary: cluster assigned)
  case Nil
  then show ?case by simp
next
  case (Cons c cs)
  show ?case
  proof (cases "length cluster \<ge> maxPois")
    case True
    then show ?thesis by simp
  next
    case False
    then obtain d where d: "maxPois - length cluster = Suc d" "maxPois - Suc (length cluster) = d"
      by (metis Suc_diff_Suc not_le)
    show ?thesis using False d by (simp add: Cons.IH)
  qed
qed


lemma seedLoop_step:
  "seedLoop pois config sortedIndices (seedIndex # rest) (assigned, clusters) =
     (if seedIndex \<in> assigned then seedLoop pois config sortedIndices rest (assigned, clusters)
      else seedLoop pois config sortedIndices rest
             (assigned \<union> set (seedCluster pois config sortedIndices assigned seedIndex),
              clusters @ [seedCluster pois config sortedIndices assigned seedIndex]))"
  by (simp add: Let_def addCandidates_eq seedCluster_def)

lemma map_fst_findCandidates:
  "map fst (findCandidates pois radius sortedIndices assigned seedIndex) =
     filter (\<lambda>candidateIndex.
            candidateIndex \<notin> assigned \<and>
            haversineDistance (lat (pois ! seedIndex)) (lng (pois ! seedIndex))
              (lat (pois ! candidateIndex)) (lng (pois ! candidateIndex)) \<le> radius)
          sortedIndices"
  by (simp add: findCandidates_def comp_def)

lemma seedCluster_facts:
  assumes "distinct sortedIndices" "seedIndex \<in> set sortedIndices"
  shows "distinct (seedCluster pois config sortedIndices assigned seedIndex)"
    and "set (seedCluster pois config sortedIndices assigned seedIndex) \<subseteq> set sortedIndices"
    and "set (seedCluster pois config sortedIndices assigned seedIndex) \<inter> assigned \<subseteq> {seedIndex}"
    and "seedIndex \<in> set (seedCluster pois config sortedIndices assigned seedIndex)"
    and "seedCluster pois config sortedIndices assigned seedIndex \<noteq> []"
    and "0 < maxPoisPerZone config \<Longrightarrow>
         length (seedCluster pois config sortedIndices assigned seedIndex) \<le> maxPoisPerZone config"
proof -
  let ?cands = "findCandidates pois (clusterRadiusMeters config) sortedIndices
               (insert seedIndex assigned) seedIndex"
  let ?sorted = "js_sort (\<lambda>a b. Finite (snd a - snd b)) ?cands"
  let ?taken = "take (maxPoisPerZone config - 1) ?sorted"
  have m: "mset (map fst ?sorted) = mset (map fst ?cands)" by (rule mset_map_js_sort)
  have dc: "distinct (map fst ?cands)" using assms(1) by (simp add: map_fst_findCandidates)
  then have ds: "distinct (map fst ?sorted)" using m by (metis mset_eq_imp_distinct_iff)
  have "set (map fst ?sorted) = set (map fst ?cands)" using m by (metis set_mset_mset)
  then have ss: "set (map fst ?sorted) \<subseteq> set sortedIndices - insert seedIndex assigned"
    by (auto simp: map_fst_findCandidates)
  have dt: "distinct (map fst ?taken)" using ds by (simp add: take_map [symmetric])
  have st: "set (map fst ?taken) \<subseteq> set sortedIndices - insert seedIndex assigned"
  proof
    fix k assume "k \<in> set (map fst ?taken)"
    then have "k \<in> set (map fst ?sorted)" by (auto dest: in_set_takeD)
    then show "k \<in> set sortedIndices - insert seedIndex assigned" using ss by blast
  qed
  show "distinct (seedCluster pois config sortedIndices assigned seedIndex)"
    using dt st by (auto simp: seedCluster_def)
  show "set (seedCluster pois config sortedIndices assigned seedIndex) \<subseteq> set sortedIndices"
    using st assms(2) by (auto simp: seedCluster_def)
  show "set (seedCluster pois config sortedIndices assigned seedIndex) \<inter> assigned \<subseteq> {seedIndex}"
    using st by (auto simp: seedCluster_def)
  show "seedIndex \<in> set (seedCluster pois config sortedIndices assigned seedIndex)"
    by (simp add: seedCluster_def)
  show "seedCluster pois config sortedIndices assigned seedIndex \<noteq> []"
    by (simp add: seedCluster_def)
  show "length (seedCluster pois config sortedIndices assigned seedIndex) \<le> maxPoisPerZone config"
    if "0 < maxPoisPerZone config"
    using that by (simp add: seedCluster_def)
qed

lemma seedLoop_partition:
  assumes "distinct sortedIndices" "set rest \<subseteq> set sortedIndices"
    and "distinct (concat clusters)" "set (concat clusters) = assigned"
    and "assigned \<subseteq> set sortedIndices"
  shows "distinct (concat (seedLoop pois config sortedIndices rest (assigned, clusters))) \<and>
         set (concat (seedLoop pois config sortedIndices rest (assigned, clusters))) \<subseteq> set sortedIndices \<and>
         assigned \<union> set rest \<subseteq> set (concat (seedLoop pois config sortedIndices rest (assigned, clusters)))"
  using assms
proof (induction rest arbitrary: assigned clusters)
  case Nil
  then show ?case by simp
next
  case (Cons seedIndex rest)
  show ?case
  proof (cases "seedIndex \<in> assigned")
    case True
    have "set rest \<subseteq> set sortedIndices" using Cons.prems(2) by simp
    from Cons.IH [OF Cons.prems(1) this Cons.prems(3,4,5)] True show ?thesis
      by (simp only: seedLoop_step) auto
  next
    case False
    let ?c = "seedCluster pois config sortedIndices assigned seedIndex"
    have seed: "seedIndex \<in> set sortedIndices" using Cons.prems(2) by simp
    note f = seedCluster_facts [OF Cons.prems(1) seed, where pois=pois and config=config and assigned=assigned]
    have disj: "set ?c \<inter> assigned = {}" using f(3) False by auto
    have d: "distinct (concat (clusters @ [?c]))"
      using Cons.prems(3,4) f(1) disj by auto
    have s: "set (concat (clusters @ [?c])) = assigned \<union> set ?c"
      using Cons.prems(4) by auto
    have sub: "assigned \<union> set ?c \<subseteq> set sortedIndices" using Cons.prems(5) f(2) by auto
    have r: "set rest \<subseteq> set sortedIndices" using Cons.prems(2) by simp
    from Cons.IH [OF Cons.prems(1) r d s sub] False f(4) show ?thesis
      by (simp only: seedLoop_step) auto
  qed
qed

lemma seedLoop_sizes:
  assumes "distinct sortedIndices" "set rest \<subseteq> set sortedIndices"
    and "\<forall>c \<in> set clusters. c \<noteq> [] \<and> (0 < maxPoisPerZone config \<longrightarrow> length c \<le> maxPoisPerZone config)"
  shows "\<forall>c \<in> set (seedLoop pois config sortedIndices rest (assigned, clusters)).
           c \<noteq> [] \<and> (0 < maxPoisPerZone config \<longrightarrow> length c \<le> maxPoisPerZone config)"
  using assms
proof (induction rest arbitrary: assigned clusters)
  case Nil
  then show ?case by simp
next
  case (Cons seedIndex rest)
  have r: "set rest \<subseteq> set sortedIndices" using Cons.prems(2) by simp
  show ?case
  proof (cases "seedIndex \<in> assigned")
    case True
    from Cons.IH [OF Cons.prems(1) r Cons.prems(3)] True show ?thesis
      by (simp only: seedLoop_step if_True)
  next
    case False
    let ?c = "seedCluster pois config sortedIndices assigned seedIndex"
    have seed: "seedIndex \<in> set sortedIndices" using Cons.prems(2) by simp
    note f = seedCluster_facts [OF Cons.prems(1) seed, where pois=pois and config=config and assigned=assigned]
    have "\<forall>c \<in> set (clusters @ [?c]).
            c \<noteq> [] \<and> (0 < maxPoisPerZone config \<longrightarrow> length c \<le> maxPoisPerZone config)"
      using Cons.prems(3) f(5,6) by auto
    from Cons.IH [OF Cons.prems(1) r this] False show ?thesis
      by (simp only: seedLoop_step if_False)
  qed
qed

section \<open>The search for a merge partner\<close>

lemma bestStep_eq:
  "bestStep pois config w i j best =
     (if j \<noteq> i \<and> length (w ! i) + length (w ! j) \<le> maxPoisPerZone config \<and>
         js_lt (Finite (centroidDistance pois w i j)) (snd best) \<and>
         centroidDistance pois w i j \<le> 3 * clusterRadiusMeters config
      then (Some j, Finite (centroidDistance pois w i j)) else best)"
  by (auto simp: bestStep_def centroidDistance_def Let_def mult.commute)

lemma foldl_bestStep_inv:
  "m \<le> length w \<Longrightarrow>
   (foldl (\<lambda>best j. bestStep pois config w i j best) (None, Infinity) [0 ..< m] = (None, Infinity) \<and>
      (\<forall>k < m. \<not> eligible pois config w i k)) \<or>
   (\<exists>j < m. foldl (\<lambda>best j. bestStep pois config w i j best) (None, Infinity) [0 ..< m] =
              (Some j, Finite (centroidDistance pois w i j)) \<and>
      eligible pois config w i j \<and>
      (\<forall>k < m. eligible pois config w i k \<longrightarrow>
         centroidDistance pois w i j \<le> centroidDistance pois w i k))"
proof (induction m)
  case 0
  then show ?case by simp
next
  case (Suc m)
  let ?f = "\<lambda>best j. bestStep pois config w i j best"
  let ?prev = "foldl ?f (None, Infinity) [0 ..< m]"
  have m: "m < length w" "m \<le> length w" using Suc.prems by auto
  have unfold: "foldl ?f (None, Infinity) [0 ..< Suc m] = bestStep pois config w i m ?prev"
    by simp
  from Suc.IH [OF m(2)] consider
    (none) "?prev = (None, Infinity)" "\<forall>k < m. \<not> eligible pois config w i k"
    | (some) j where "j < m" "?prev = (Some j, Finite (centroidDistance pois w i j))"
        "eligible pois config w i j"
        "\<forall>k < m. eligible pois config w i k \<longrightarrow>
           centroidDistance pois w i j \<le> centroidDistance pois w i k"
    by blast
  then show ?case
  proof cases
    case none
    show ?thesis
    proof (cases "eligible pois config w i m")
      case True
      then have "bestStep pois config w i m ?prev = (Some m, Finite (centroidDistance pois w i m))"
        using none(1) by (simp add: bestStep_eq eligible_def)
      moreover have "\<forall>k < Suc m. eligible pois config w i k \<longrightarrow>
           centroidDistance pois w i m \<le> centroidDistance pois w i k"
        using none(2) by (auto simp: less_Suc_eq)
      ultimately show ?thesis using True unfold by (metis lessI)
    next
      case False
      then have "bestStep pois config w i m ?prev = (None, Infinity)"
        using none(1) m(1) by (auto simp: bestStep_eq eligible_def)
      moreover have "\<forall>k < Suc m. \<not> eligible pois config w i k"
        using none(2) False by (auto simp: less_Suc_eq)
      ultimately show ?thesis using unfold by simp
    qed
  next
    case some
    show ?thesis
    proof (cases "eligible pois config w i m \<and>
                  centroidDistance pois w i m < centroidDistance pois w i j")
      case True
      then have "bestStep pois config w i m ?prev = (Some m, Finite (centroidDistance pois w i m))"
        using some(2) by (simp add: bestStep_eq eligible_def)
      moreover have "\<forall>k < Suc m. eligible pois config w i k \<longrightarrow>
           centroidDistance pois w i m \<le> centroidDistance pois w i k"
        using some(4) True by (fastforce simp: less_Suc_eq)
      ultimately show ?thesis using True unfold by (metis lessI)
    next
      case False
      then have "bestStep pois config w i m ?prev = (Some j, Finite (centroidDistance pois w i j))"
        using some(2) m(1) by (auto simp: bestStep_eq eligible_def)
      moreover have "\<forall>k < Suc m. eligible pois config w i k \<longrightarrow>
           centroidDistance pois w i j \<le> centroidDistance pois w i k"
        using some(4) False by (auto simp: less_Suc_eq)
      ultimately show ?thesis using some(1,3) unfold by (metis less_SucI)
    qed
  qed
qed

lemma findBestMerge_Some:
  assumes "fst (findBestMerge pois config w i) = Some j"
  shows "eligible pois config w i j"
    and "\<forall>k. eligible pois config w i k \<longrightarrow>
           centroidDistance pois w i j \<le> centroidDistance pois w i k"
  using foldl_bestStep_inv [of "length w" w pois config i] assms
  by (auto simp: findBestMerge_def eligible_def)

lemma findBestMerge_None:
  "fst (findBestMerge pois config w i) = None \<longleftrightarrow> (\<forall>k. \<not> eligible pois config w i k)"
  using foldl_bestStep_inv [of "length w" w pois config i]
  by (auto simp: findBestMerge_def eligible_def)


lemma mergeScan_Some:
  "mergeScan pois config w i0 = Some merged \<Longrightarrow>
   \<exists>i j. i0 \<le> i \<and> i < length w \<and> length (w ! i) < minPoisPerZone config \<and>
     (\<forall>i'. i0 \<le> i' \<and> i' < i \<and> length (w ! i') < minPoisPerZone config \<longrightarrow>
        (\<forall>k. \<not> eligible pois config w i' k)) \<and>
     eligible pois config w i j \<and>
     (\<forall>k. eligible pois config w i k \<longrightarrow>
        centroidDistance pois w i j \<le> centroidDistance pois w i k) \<and>
     merged = splice1 j (w[i := w ! i @ w ! j])"
proof (induction pois config w i0 rule: mergeScan.induct)
  case (1 pois config w i0)
  note eq = mergeScan.simps [of pois config w i0]
  show ?case
  proof (cases "i0 < length w")
    case False
    with "1.prems" show ?thesis by (simp add: eq)
  next
    case inrange: True
    show ?thesis
    proof (cases "length (w ! i0) \<ge> minPoisPerZone config")
      case True
      with inrange "1.prems" have "mergeScan pois config w (Suc i0) = Some merged"
        by (simp add: eq)
      from "1.IH"(1) [OF _ True this] inrange obtain i j where ij:
        "Suc i0 \<le> i" "i < length w" "length (w ! i) < minPoisPerZone config"
        "\<forall>i'. Suc i0 \<le> i' \<and> i' < i \<and> length (w ! i') < minPoisPerZone config \<longrightarrow>
           (\<forall>k. \<not> eligible pois config w i' k)"
        "eligible pois config w i j"
        "\<forall>k. eligible pois config w i k \<longrightarrow>
           centroidDistance pois w i j \<le> centroidDistance pois w i k"
        "merged = splice1 j (w[i := w ! i @ w ! j])"
        by auto
      have "\<forall>i'. i0 \<le> i' \<and> i' < i \<and> length (w ! i') < minPoisPerZone config \<longrightarrow>
           (\<forall>k. \<not> eligible pois config w i' k)"
      proof (rule allI, rule impI)
        fix i' assume a: "i0 \<le> i' \<and> i' < i \<and> length (w ! i') < minPoisPerZone config"
        then have "i' \<noteq> i0" using True by auto
        then have "Suc i0 \<le> i'" using a by simp
        then show "\<forall>k. \<not> eligible pois config w i' k" using ij(4) a by blast
      qed
      moreover have "i0 \<le> i" using ij(1) by simp
      ultimately show ?thesis using ij(2,3,5,6,7) by blast
    next
      case small: False
      show ?thesis
      proof (cases "fst (findBestMerge pois config w i0)")
        case None
        with inrange small "1.prems" have "mergeScan pois config w (Suc i0) = Some merged"
          by (simp add: eq)
        from "1.IH"(2) [OF _ small None this] inrange obtain i j where ij:
          "Suc i0 \<le> i" "i < length w" "length (w ! i) < minPoisPerZone config"
          "\<forall>i'. Suc i0 \<le> i' \<and> i' < i \<and> length (w ! i') < minPoisPerZone config \<longrightarrow>
             (\<forall>k. \<not> eligible pois config w i' k)"
          "eligible pois config w i j"
          "\<forall>k. eligible pois config w i k \<longrightarrow>
             centroidDistance pois w i j \<le> centroidDistance pois w i k"
          "merged = splice1 j (w[i := w ! i @ w ! j])"
          by auto
        have none0: "\<forall>k. \<not> eligible pois config w i0 k"
          using None by (simp add: findBestMerge_None)
        have "\<forall>i'. i0 \<le> i' \<and> i' < i \<and> length (w ! i') < minPoisPerZone config \<longrightarrow>
             (\<forall>k. \<not> eligible pois config w i' k)"
        proof (rule allI, rule impI)
          fix i' assume a: "i0 \<le> i' \<and> i' < i \<and> length (w ! i') < minPoisPerZone config"
          show "\<forall>k. \<not> eligible pois config w i' k"
          proof (cases "i' = i0")
            case True
            then show ?thesis using none0 by simp
          next
            case False
            then have "Suc i0 \<le> i'" using a by simp
            then show ?thesis using ij(4) a by blast
          qed
        qed
        moreover have "i0 \<le> i" using ij(1) by simp
        ultimately show ?thesis using ij(2,3,5,6,7) by blast
      next
        case (Some j)
        from Some inrange small "1.prems"
        have m: "merged = splice1 j (w[i0 := w ! i0 @ w ! j])"
          by (simp add: eq)
        have "length (w ! i0) < minPoisPerZone config" using small by simp
        with findBestMerge_Some [OF Some] m inrange show ?thesis
          by (intro exI [of _ i0] exI [of _ j]) auto
      qed
    qed
  qed
qed

lemma mergeScan_None:
  "mergeScan pois config w i0 = None \<longleftrightarrow>
   (\<forall>i. i0 \<le> i \<and> i < length w \<and> length (w ! i) < minPoisPerZone config \<longrightarrow>
      (\<forall>k. \<not> eligible pois config w i k))"
proof (induction pois config w i0 rule: mergeScan.induct)
  case (1 pois config w i0)
  note eq = mergeScan.simps [of pois config w i0]
  let ?Q = "\<lambda>i. i < length w \<and> length (w ! i) < minPoisPerZone config \<longrightarrow>
      (\<forall>k. \<not> eligible pois config w i k)"
  have from_i0: "(\<forall>i. i0 \<le> i \<longrightarrow> ?Q i) \<longleftrightarrow> ?Q i0 \<and> (\<forall>i. Suc i0 \<le> i \<longrightarrow> ?Q i)"
  proof
    assume "\<forall>i. i0 \<le> i \<longrightarrow> ?Q i"
    then show "?Q i0 \<and> (\<forall>i. Suc i0 \<le> i \<longrightarrow> ?Q i)" by (simp add: Suc_le_eq less_imp_le)
  next
    assume r: "?Q i0 \<and> (\<forall>i. Suc i0 \<le> i \<longrightarrow> ?Q i)"
    show "\<forall>i. i0 \<le> i \<longrightarrow> ?Q i"
    proof (rule allI, rule impI)
      fix i assume "i0 \<le> i"
      then have "i = i0 \<or> Suc i0 \<le> i" by auto
      then show "?Q i" using r by blast
    qed
  qed
  have goal_eq: "(\<forall>i. i0 \<le> i \<and> i < length w \<and> length (w ! i) < minPoisPerZone config \<longrightarrow>
      (\<forall>k. \<not> eligible pois config w i k)) \<longleftrightarrow> (\<forall>i. i0 \<le> i \<longrightarrow> ?Q i)"
    by blast
  show ?case
  proof (cases "i0 < length w")
    case False
    then show ?thesis by (auto simp: eq)
  next
    case inrange: True
    show ?thesis
    proof (cases "length (w ! i0) \<ge> minPoisPerZone config")
      case True
      have "mergeScan pois config w i0 = mergeScan pois config w (Suc i0)"
        using inrange True by (simp add: eq)
      moreover have "mergeScan pois config w (Suc i0) = None \<longleftrightarrow> (\<forall>i. Suc i0 \<le> i \<longrightarrow> ?Q i)"
        using "1.IH"(1) [OF _ True] inrange by blast
      moreover have "?Q i0" using True by simp
      ultimately show ?thesis unfolding goal_eq from_i0 by simp
    next
      case small: False
      show ?thesis
      proof (cases "fst (findBestMerge pois config w i0)")
        case None
        have "mergeScan pois config w i0 = mergeScan pois config w (Suc i0)"
          using inrange small None by (simp add: eq)
        moreover have "mergeScan pois config w (Suc i0) = None \<longleftrightarrow> (\<forall>i. Suc i0 \<le> i \<longrightarrow> ?Q i)"
          using "1.IH"(2) [OF _ small None] inrange by blast
        moreover have "?Q i0" using None by (simp add: findBestMerge_None)
        ultimately show ?thesis unfolding goal_eq from_i0 by simp
      next
        case (Some j)
        then have "eligible pois config w i0 j" by (rule findBestMerge_Some(1))
        then have "\<not> ?Q i0" using inrange small by auto
        moreover have "mergeScan pois config w i0 \<noteq> None"
          using inrange small Some by (simp add: eq)
        ultimately show ?thesis unfolding goal_eq from_i0 by blast
      qed
    qed
  qed
qed

section \<open>A merge keeps the indices\<close>

lemma sum_list_splice1:
  fixes f :: "'b \<Rightarrow> 'c::comm_monoid_add"
  shows "k < length xs \<Longrightarrow> sum_list (map f (splice1 k xs)) + f (xs ! k) = sum_list (map f xs)"
proof -
  assume "k < length xs"
  then have "xs = take k xs @ xs ! k # drop (Suc k) xs" by (rule id_take_nth_drop)
  then have "sum_list (map f xs) = sum_list (map f (take k xs @ xs ! k # drop (Suc k) xs))"
    by simp
  then show ?thesis by (simp add: splice1_def ac_simps)
qed

lemma sum_list_update_add:
  fixes f :: "'b \<Rightarrow> 'c::comm_monoid_add"
  shows "i < length xs \<Longrightarrow>
    sum_list (map f (xs[i := a])) + f (xs ! i) = sum_list (map f xs) + f a"
proof -
  assume i: "i < length xs"
  then have "xs = take i xs @ xs ! i # drop (Suc i) xs" by (rule id_take_nth_drop)
  then have "sum_list (map f xs) = sum_list (map f (take i xs @ xs ! i # drop (Suc i) xs))"
    by simp
  moreover have "xs[i := a] = take i xs @ a # drop (Suc i) xs"
    using i by (rule upd_conv_take_nth_drop)
  ultimately show ?thesis by (simp add: ac_simps)
qed

lemma mset_concat_merge:
  assumes "i < length w" "j < length w" "j \<noteq> i"
  shows "mset (concat (splice1 j (w[i := w ! i @ w ! j]))) = mset (concat w)"
proof -
  let ?u = "w[i := w ! i @ w ! j]"
  have "sum_list (map mset (splice1 j ?u)) + mset (?u ! j) = sum_list (map mset ?u)"
    using assms(2) by (intro sum_list_splice1) simp
  moreover have "?u ! j = w ! j" using assms(3) by simp
  moreover have "sum_list (map mset ?u) + mset (w ! i) = sum_list (map mset w) + mset (w ! i @ w ! j)"
    using assms(1) by (rule sum_list_update_add)
  ultimately have "sum_list (map mset (splice1 j ?u)) + mset (w ! j) + mset (w ! i) =
      sum_list (map mset w) + mset (w ! i) + mset (w ! j)"
    by (simp add: ac_simps)
  then have "sum_list (map mset (splice1 j ?u)) = sum_list (map mset w)"
    by (simp add: ac_simps)
  then show ?thesis by (simp add: mset_concat)
qed

lemma set_splice1_update:
  "set (splice1 j (w[i := a])) \<subseteq> insert a (set w)"
proof
  fix c assume "c \<in> set (splice1 j (w[i := a]))"
  then have "c \<in> set (w[i := a])" by (auto simp: splice1_def dest: in_set_takeD in_set_dropD)
  then show "c \<in> insert a (set w)" using set_update_subset_insert by fastforce
qed

lemma mergeWhile_invariant:
  assumes "P w"
    and "\<And>u merged. P u \<Longrightarrow> mergeScan pois config u 0 = Some merged \<Longrightarrow> P merged"
  shows "P (mergeWhile pois config w)"
  using assms
proof (induction pois config w rule: mergeWhile.induct)
  case (1 pois config w)
  show ?case
  proof (cases "mergeScan pois config w 0")
    case None
    then show ?thesis using "1.prems"(1) by (simp add: mergeWhile.simps [of pois config w])
  next
    case (Some merged)
    have "P merged" using "1.prems"(1) Some by (rule "1.prems"(2))
    from "1.IH" [OF Some this "1.prems"(2)] Some show ?thesis
      by (simp add: mergeWhile.simps [of pois config w])
  qed
qed

section \<open>The clusters partition the indices\<close>

lemma clusterPOIs_greedy:
  "clusterPOIs pois config =
     (if length pois = 0 then [] else mergeSmallClusters (greedyClusters pois config) pois config)"
  by (simp add: clusterPOIs_def greedyClusters_def Let_def)

lemma greedyClusters_partition:
  "mset (concat (greedyClusters pois config)) = mset [0 ..< length pois]"
proof -
  let ?s = "js_sort (\<lambda>a b. Finite (lat (pois ! b) - lat (pois ! a))) [0 ..< length pois]"
  let ?r = "seedLoop pois config ?s ?s ({}, [])"
  have d: "distinct ?s" by (simp add: distinct_js_sort)
  have s: "set ?s = {0 ..< length pois}" by (simp add: set_js_sort)
  from seedLoop_partition [OF d, of ?s "[]" "{}" pois config]
  have "distinct (concat ?r)" "set (concat ?r) = set ?s" by auto
  then have "distinct (concat ?r)" "distinct [0 ..< length pois]"
    "set (concat ?r) = set [0 ..< length pois]"
    using s by simp_all
  then have "mset (concat ?r) = mset [0 ..< length pois]"
    by (simp only: set_eq_iff_mset_eq_distinct)
  then show ?thesis by (simp add: greedyClusters_def Let_def)
qed

lemma greedyClusters_sizes:
  "\<forall>c \<in> set (greedyClusters pois config).
     c \<noteq> [] \<and> (0 < maxPoisPerZone config \<longrightarrow> length c \<le> maxPoisPerZone config)"
proof -
  let ?s = "js_sort (\<lambda>a b. Finite (lat (pois ! b) - lat (pois ! a))) [0 ..< length pois]"
  have d: "distinct ?s" by (simp add: distinct_js_sort)
  from seedLoop_sizes [OF d, of ?s "[]" config pois "{}"] show ?thesis
    by (simp add: greedyClusters_def Let_def)
qed

lemma mergeScan_partition:
  assumes "mergeScan pois config w 0 = Some merged"
  shows "mset (concat merged) = mset (concat w)"
proof -
  from mergeScan_Some [OF assms] obtain i j where
    "i < length w" "eligible pois config w i j" "merged = splice1 j (w[i := w ! i @ w ! j])"
    by blast
  then show ?thesis by (simp add: eligible_def mset_concat_merge)
qed

lemma mergeScan_sizes:
  assumes "mergeScan pois config w 0 = Some merged"
    and "\<forall>c \<in> set w. c \<noteq> [] \<and> (0 < maxPoisPerZone config \<longrightarrow> length c \<le> maxPoisPerZone config)"
  shows "\<forall>c \<in> set merged.
           c \<noteq> [] \<and> (0 < maxPoisPerZone config \<longrightarrow> length c \<le> maxPoisPerZone config)"
proof
  fix c assume c: "c \<in> set merged"
  from mergeScan_Some [OF assms(1)] obtain i j where ij:
    "i < length w" "eligible pois config w i j" "merged = splice1 j (w[i := w ! i @ w ! j])"
    by blast
  have "w ! i \<in> set w" using ij(1) by simp
  then have ne: "w ! i @ w ! j \<noteq> []" using assms(2) by auto
  have le: "length (w ! i @ w ! j) \<le> maxPoisPerZone config"
    using ij(2) by (simp add: eligible_def)
  from c ij(3) set_splice1_update [of j w i "w ! i @ w ! j"]
  have "c = w ! i @ w ! j \<or> c \<in> set w" by auto
  then show "c \<noteq> [] \<and> (0 < maxPoisPerZone config \<longrightarrow> length c \<le> maxPoisPerZone config)"
    using ne le assms(2) by auto
qed

lemma mergeSmallClusters_partition:
  "mset (concat (mergeSmallClusters clusters pois config)) = mset (concat clusters)"
proof (cases "length clusters \<le> 1")
  case True
  then show ?thesis by (simp add: mergeSmallClusters_def)
next
  case False
  have "mset (concat (mergeWhile pois config clusters)) = mset (concat clusters)"
    by (rule mergeWhile_invariant [where P = "\<lambda>u. mset (concat u) = mset (concat clusters)"])
       (simp_all add: mergeScan_partition)
  then show ?thesis using False by (simp add: mergeSmallClusters_def)
qed

lemma mergeSmallClusters_sizes:
  assumes "\<forall>c \<in> set clusters.
     c \<noteq> [] \<and> (0 < maxPoisPerZone config \<longrightarrow> length c \<le> maxPoisPerZone config)"
  shows "\<forall>c \<in> set (mergeSmallClusters clusters pois config).
     c \<noteq> [] \<and> (0 < maxPoisPerZone config \<longrightarrow> length c \<le> maxPoisPerZone config)"
proof (cases "length clusters \<le> 1")
  case True
  then show ?thesis using assms by (simp add: mergeSmallClusters_def)
next
  case False
  have "\<forall>c \<in> set (mergeWhile pois config clusters).
     c \<noteq> [] \<and> (0 < maxPoisPerZone config \<longrightarrow> length c \<le> maxPoisPerZone config)"
  proof (rule mergeWhile_invariant [where P = "\<lambda>u. \<forall>c \<in> set u.
         c \<noteq> [] \<and> (0 < maxPoisPerZone config \<longrightarrow> length c \<le> maxPoisPerZone config)"])
    show "\<forall>c \<in> set clusters.
         c \<noteq> [] \<and> (0 < maxPoisPerZone config \<longrightarrow> length c \<le> maxPoisPerZone config)"
      by (rule assms)
  next
    fix u merged
    assume "\<forall>c \<in> set u.
         c \<noteq> [] \<and> (0 < maxPoisPerZone config \<longrightarrow> length c \<le> maxPoisPerZone config)"
      and "mergeScan pois config u 0 = Some merged"
    then show "\<forall>c \<in> set merged.
         c \<noteq> [] \<and> (0 < maxPoisPerZone config \<longrightarrow> length c \<le> maxPoisPerZone config)"
      using mergeScan_sizes by blast
  qed
  then show ?thesis using False by (simp add: mergeSmallClusters_def)
qed

lemma clusterPOIs_partition:
  "mset (concat (clusterPOIs pois config)) = mset [0 ..< length pois]"
  by (simp add: clusterPOIs_greedy mergeSmallClusters_partition greedyClusters_partition)

lemma clusterPOIs_sizes:
  "\<forall>c \<in> set (clusterPOIs pois config).
     c \<noteq> [] \<and> (0 < maxPoisPerZone config \<longrightarrow> length c \<le> maxPoisPerZone config)"
  using mergeSmallClusters_sizes [OF greedyClusters_sizes, of pois config pois]
  by (simp add: clusterPOIs_greedy)

lemma greedyClusters_wellFormed: "wellFormedClusters pois (greedyClusters pois config)"
proof -
  have "set (concat (greedyClusters pois config)) = set [0 ..< length pois]"
    using greedyClusters_partition [of pois config] by (metis set_mset_mset)
  then have "\<forall>c \<in> set (greedyClusters pois config). \<forall>i \<in> set c. i < length pois"
    by auto
  then show ?thesis using greedyClusters_sizes [of pois config]
    by (simp add: wellFormedClusters_def)
qed

lemma mergeScan_wellFormed:
  assumes "wellFormedClusters pois w" "mergeScan pois config w 0 = Some merged"
  shows "wellFormedClusters pois merged"
  unfolding wellFormedClusters_def
proof
  fix c assume c: "c \<in> set merged"
  from mergeScan_Some [OF assms(2)] obtain i j where ij:
    "i < length w" "eligible pois config w i j" "merged = splice1 j (w[i := w ! i @ w ! j])"
    by blast
  have "w ! i \<in> set w" "w ! j \<in> set w" using ij(1,2) by (simp_all add: eligible_def)
  then have new: "w ! i @ w ! j \<noteq> [] \<and> (\<forall>i \<in> set (w ! i @ w ! j). i < length pois)"
    using assms(1) by (auto simp: wellFormedClusters_def)
  from c ij(3) set_splice1_update [of j w i "w ! i @ w ! j"]
  have "c = w ! i @ w ! j \<or> c \<in> set w" by auto
  then show "c \<noteq> [] \<and> (\<forall>i \<in> set c. i < length pois)"
    using new assms(1) by (auto simp: wellFormedClusters_def)
qed

section \<open>From clusters to zones\<close>

lemma poiIndices_buildZone [simp]:
  "poiIndices (buildZone calculateCenter calculateZoom pois mergedConfig entry) = snd entry"
  by (simp add: buildZone_def Let_def)

lemma foldl_boundsStep_coordinates:
  "foldl boundsStep b (map (\<lambda>p. \<lparr>lat = lat p, lng = lng p\<rparr>) ps) = foldl boundsStep b ps"
  by (induction ps arbitrary: b) (simp_all add: boundsStep_def)

lemma bounds_buildZone [simp]:
  "bounds (buildZone calculateCenter calculateZoom pois mergedConfig entry) =
     calculateBounds (map (\<lambda>i. pois ! i) (snd entry))"
  by (simp add: buildZone_def Let_def calculateBounds_def foldl_boundsStep_coordinates)

lemma poiIndices_relabel:
  "map poiIndices (map (\<lambda>(index, zone). zone\<lparr>zone_id := zoneName index\<rparr>) (enumerate n zs)) =
   map poiIndices zs"
  by (induction zs arbitrary: n) simp_all

lemma bounds_relabel:
  "map bounds (map (\<lambda>(index, zone). zone\<lparr>zone_id := zoneName index\<rparr>) (enumerate n zs)) =
   map bounds zs"
  by (induction zs arbitrary: n) simp_all

lemma poiIndices_buildZones:
  "map poiIndices (map (buildZone calculateCenter calculateZoom pois mergedConfig)
     (enumerate n clusters)) = clusters"
  by (induction clusters arbitrary: n) simp_all

lemma planZones_nonempty:
  "pois \<noteq> [] \<Longrightarrow>
   planZones calculateCenter calculateZoom pois config =
     map (\<lambda>(index, zone). zone\<lparr>zone_id := zoneName index\<rparr>)
       (enumerate 0 (js_sort zoneCompare
          (map (buildZone calculateCenter calculateZoom pois (mergeConfig config))
             (enumerate 0 (clusterPOIs pois (mergeConfig config))))))"
  by (simp add: planZones_def planZonesWith_def Let_def)

lemma poiIndices_planZones:
  assumes "pois \<noteq> []"
  shows "mset (map poiIndices (planZones calculateCenter calculateZoom pois config)) =
         mset (clusterPOIs pois (mergeConfig config))"
proof -
  let ?zones = "map (buildZone calculateCenter calculateZoom pois (mergeConfig config))
                      (enumerate 0 (clusterPOIs pois (mergeConfig config)))"
  have "map poiIndices (planZones calculateCenter calculateZoom pois config) =
        map poiIndices (js_sort zoneCompare ?zones)"
    by (simp only: planZones_nonempty [OF assms] poiIndices_relabel)
  then have "mset (map poiIndices (planZones calculateCenter calculateZoom pois config)) =
        mset (map poiIndices ?zones)"
    by (simp only: mset_map_js_sort)
  then show ?thesis by (simp only: poiIndices_buildZones)
qed

lemma mset_concat_cong: "mset xs = mset ys \<Longrightarrow> mset (concat xs) = mset (concat ys)"
proof -
  assume "mset xs = mset ys"
  then have "mset (map mset xs) = mset (map mset ys)" by (metis mset_map)
  then have "sum_mset (mset (map mset xs)) = sum_mset (mset (map mset ys))" by simp
  then show ?thesis by (simp only: mset_concat sum_mset_sum_list)
qed

section \<open>Evaluation on small inputs\<close>

lemma haversineDistance_same: "haversineDistance a b a b = 0"
  by (simp add: haversineDistance_def toRad_def atan2_def)

lemma greedyClusters_single: "greedyClusters [p] config = [[0]]"
  by (simp add: greedyClusters_def js_sort_def seedLoop_step seedCluster_def findCandidates_def)

lemma clusterPOIs_single: "clusterPOIs [p] config = [[0]]"
  by (simp add: clusterPOIs_greedy greedyClusters_single mergeSmallClusters_def)

lemma string_of_nat_0: "string_of_nat 0 = ''0''"
  by simp

lemma planZones_single:
  "planZones calculateCenter calculateZoom [p] config =
     [\<lparr>zone_id = ''zone-0'', poiIndices = [0],
       bounds = \<lparr>north = Finite (lat p), south = Finite (lat p),
                 east = Finite (lng p), west = Finite (lng p)\<rparr>,
       center = calculateCenter \<lparr>north = Finite (lat p), south = Finite (lat p),
                 east = Finite (lng p), west = Finite (lng p)\<rparr>,
       zoom = calculateZoom \<lparr>north = Finite (lat p), south = Finite (lat p),
                 east = Finite (lng p), west = Finite (lng p)\<rparr> (mapSize (mergeConfig config))\<rparr>]"
  by (simp add: planZones_def planZonesWith_def clusterPOIs_single js_sort_def buildZone_def Let_def zoneName_def
      calculateBounds_def boundsStep_def initialBounds_def)

section \<open>The merge loop\<close>

lemma mergeWhile_None: "mergeScan pois config w 0 = None \<Longrightarrow> mergeWhile pois config w = w"
  by (simp add: mergeWhile.simps [of pois config w])

lemma mergeWhile_Some:
  "mergeScan pois config w 0 = Some merged \<Longrightarrow>
   mergeWhile pois config w = mergeWhile pois config merged"
  by (simp add: mergeWhile.simps [of pois config w])

lemma mergeWhileFuel_enough:
  "length w < fuel \<Longrightarrow> mergeWhileFuel fuel pois config w = Some (mergeWhile pois config w)"
proof (induction fuel arbitrary: w)
  case 0
  then show ?case by simp
next
  case (Suc fuel)
  show ?case
  proof (cases "mergeScan pois config w 0")
    case None
    then show ?thesis by (simp add: mergeWhile_None)
  next
    case (Some merged)
    then have "Suc (length merged) = length w" by (rule mergeScan_length)
    then have "length merged < fuel" using Suc.prems by simp
    then have "mergeWhileFuel fuel pois config merged = Some (mergeWhile pois config merged)"
      by (rule Suc.IH)
    then show ?thesis using Some by (simp add: mergeWhile_Some)
  qed
qed

lemma DEFAULT_CONFIG_fields [simp]:
  "minPoisPerZone DEFAULT_CONFIG = 3" "maxPoisPerZone DEFAULT_CONFIG = 10"
  "clusterRadiusMeters DEFAULT_CONFIG = 1000"
  "mapSize DEFAULT_CONFIG = \<lparr>width = 400, height = 600\<rparr>"
  by (simp_all add: DEFAULT_CONFIG_def)

lemma upt_2: "[0 ..< 2] = [0, Suc 0]"
  by (simp add: upt_rec)

lemma findBestMerge_twin:
  "findBestMerge [p, p] DEFAULT_CONFIG [[0], [Suc 0]] 0 = (Some (Suc 0), Finite 0)"
  by (simp add: findBestMerge_def bestStep_def getClusterCenter_def haversineDistance_same
      upt_2 Let_def)

lemma mergeScan_twin:
  "mergeScan [p, p] DEFAULT_CONFIG [[0], [Suc 0]] 0 = Some [[0, Suc 0]]"
  by (simp add: mergeScan.simps [of _ _ _ 0] findBestMerge_twin splice1_def)

lemma mergeScan_single: "mergeScan pois config [c] 0 = None"
  by (auto simp: mergeScan_None eligible_def)

section \<open>Bounds of a list of points\<close>

lemma accMax_Finite [simp]: "accMax (Finite a) (Finite r) = Finite (max a r)"
  by (simp add: accMax_def max_def)

lemma accMin_Finite [simp]: "accMin (Finite a) (Finite r) = Finite (min a r)"
  by (simp add: accMin_def min_def)

lemma foldl_accMax_Finite:
  "foldl accMax (Finite a) (map Finite rs) = Finite (Max (insert a (set rs)))"
proof (induction rs arbitrary: a)
  case Nil
  then show ?case by simp
next
  case (Cons r rs)
  have "Max (insert (max a r) (set rs)) = Max (insert a (insert r (set rs)))"
    by (cases "set rs = {}") (simp_all add: max.assoc)
  then show ?case by (simp add: Cons.IH)
qed

lemma foldl_accMin_Finite:
  "foldl accMin (Finite a) (map Finite rs) = Finite (Min (insert a (set rs)))"
proof (induction rs arbitrary: a)
  case Nil
  then show ?case by simp
next
  case (Cons r rs)
  have "Min (insert (min a r) (set rs)) = Min (insert a (insert r (set rs)))"
    by (cases "set rs = {}") (simp_all add: min.assoc)
  then show ?case by (simp add: Cons.IH)
qed

lemma foldl_accMax_NegInfinity:
  "rs \<noteq> [] \<Longrightarrow> foldl accMax NegInfinity (map Finite rs) = Finite (Max (set rs))"
  by (cases rs) (simp_all add: foldl_accMax_Finite accMax_def)

lemma foldl_accMin_Infinity:
  "rs \<noteq> [] \<Longrightarrow> foldl accMin Infinity (map Finite rs) = Finite (Min (set rs))"
  by (cases rs) (simp_all add: foldl_accMin_Finite accMin_def)

lemma calculateBounds_nonempty:
  assumes "ps \<noteq> []"
  shows "calculateBounds ps =
     \<lparr>north = Finite (Max (set (map lat ps))), south = Finite (Min (set (map lat ps))),
      east = Finite (Max (set (map lng ps))), west = Finite (Min (set (map lng ps)))\<rparr>"
proof -
  have l: "map (\<lambda>p. Finite (lat p)) ps = map Finite (map lat ps)"
    and g: "map (\<lambda>p. Finite (lng p)) ps = map Finite (map lng ps)" by simp_all
  have ne: "map lat ps \<noteq> []" "map lng ps \<noteq> []" using assms by simp_all
  have "north (calculateBounds ps) = Finite (Max (set (map lat ps)))"
    unfolding calculateBounds_def bounds_fields l
    using foldl_accMax_NegInfinity [OF ne(1)] by (simp add: initialBounds_def)
  moreover have "south (calculateBounds ps) = Finite (Min (set (map lat ps)))"
    unfolding calculateBounds_def bounds_fields l
    using foldl_accMin_Infinity [OF ne(1)] by (simp add: initialBounds_def)
  moreover have "east (calculateBounds ps) = Finite (Max (set (map lng ps)))"
    unfolding calculateBounds_def bounds_fields g
    using foldl_accMax_NegInfinity [OF ne(2)] by (simp add: initialBounds_def)
  moreover have "west (calculateBounds ps) = Finite (Min (set (map lng ps)))"
    unfolding calculateBounds_def bounds_fields g
    using foldl_accMin_Infinity [OF ne(2)] by (simp add: initialBounds_def)
  ultimately show ?thesis by (cases "calculateBounds ps") simp
qed

section \<open>The sort and the comparator\<close>

lemma zoneCompare_bounds: "zoneCompare a b = boundsCompare (bounds a) (bounds b)"
  by (simp add: zoneCompare_def zoneCompareWith_def boundsCompare_def Let_def js_sub_with_Finite)

section \<open>The bounds of the zones\<close>

lemma js_insert_map:
  assumes "\<And>a b. cmp a b = cmp' (f a) (f b)"
  shows "map f (js_insert cmp x xs) = js_insert cmp' (f x) (map f xs)"
  by (induction xs) (simp_all add: assms)

lemma js_sort_map:
  assumes "\<And>a b. cmp a b = cmp' (f a) (f b)"
  shows "map f (js_sort cmp xs) = js_sort cmp' (map f xs)"
  by (induction xs) (simp_all add: js_sort_def js_insert_map [of cmp cmp' f, OF assms])

lemma bounds_buildZones:
  "map bounds (map (buildZone calculateCenter calculateZoom pois mergedConfig)
     (enumerate n clusters)) = map (\<lambda>c. calculateBounds (map (\<lambda>i. pois ! i) c)) clusters"
  by (induction clusters arbitrary: n) simp_all

lemma bounds_planZones:
  assumes "pois \<noteq> []"
  shows "map bounds (planZones calculateCenter calculateZoom pois config) =
         js_sort boundsCompare
           (map (\<lambda>c. calculateBounds (map (\<lambda>i. pois ! i) c)) (clusterPOIs pois (mergeConfig config)))"
proof -
  let ?zones = "map (buildZone calculateCenter calculateZoom pois (mergeConfig config))
                      (enumerate 0 (clusterPOIs pois (mergeConfig config)))"
  have "map bounds (planZones calculateCenter calculateZoom pois config) =
        map bounds (js_sort zoneCompare ?zones)"
    by (simp only: planZones_nonempty [OF assms] bounds_relabel)
  also have "\<dots> = js_sort boundsCompare (map bounds ?zones)"
    by (rule js_sort_map) (rule zoneCompare_bounds)
  finally show ?thesis by (simp only: bounds_buildZones)
qed

lemma mergeScan_all_large:
  "\<forall>c \<in> set w. minPoisPerZone config \<le> length c \<Longrightarrow> mergeScan pois config w i = None"
proof -
  assume large: "\<forall>c \<in> set w. minPoisPerZone config \<le> length c"
  have "\<not> length (w ! k) < minPoisPerZone config" if "k < length w" for k
    using large nth_mem [OF that] by (simp add: not_less)
  then show ?thesis by (auto simp: mergeScan_None)
qed

section \<open>Extremes over the clusters\<close>

lemma Max_of_Max_concat:
  fixes g :: "nat \<Rightarrow> real"
  assumes "cs \<noteq> []" "\<forall>c \<in> set cs. c \<noteq> []"
  shows "Max ((\<lambda>c. Max (g ` set c)) ` set cs) = Max (g ` set (concat cs))"
  using assms
proof (induction cs)
  case Nil
  then show ?case by simp
next
  case (Cons c cs)
  show ?case
  proof (cases "cs = []")
    case True
    then show ?thesis by simp
  next
    case False
    have ne: "c \<noteq> []" "concat cs \<noteq> []" using Cons.prems(2) False by (cases cs; auto)+
    have ih: "Max ((\<lambda>c. Max (g ` set c)) ` set cs) = Max (g ` set (concat cs))"
      using Cons.IH False Cons.prems(2) by simp
    have "Max ((\<lambda>c. Max (g ` set c)) ` set (c # cs)) =
          max (Max (g ` set c)) (Max ((\<lambda>c. Max (g ` set c)) ` set cs))"
      using False by simp
    also have "\<dots> = max (Max (g ` set c)) (Max (g ` set (concat cs)))" by (simp only: ih)
    also have "\<dots> = Max (g ` set c \<union> g ` set (concat cs))"
      using ne by (intro Max.union [symmetric]) simp_all
    finally show ?thesis by (simp add: image_Un)
  qed
qed

lemma Min_of_Min_concat:
  fixes g :: "nat \<Rightarrow> real"
  assumes "cs \<noteq> []" "\<forall>c \<in> set cs. c \<noteq> []"
  shows "Min ((\<lambda>c. Min (g ` set c)) ` set cs) = Min (g ` set (concat cs))"
  using assms
proof (induction cs)
  case Nil
  then show ?case by simp
next
  case (Cons c cs)
  show ?case
  proof (cases "cs = []")
    case True
    then show ?thesis by simp
  next
    case False
    have ne: "c \<noteq> []" "concat cs \<noteq> []" using Cons.prems(2) False by (cases cs; auto)+
    have ih: "Min ((\<lambda>c. Min (g ` set c)) ` set cs) = Min (g ` set (concat cs))"
      using Cons.IH False Cons.prems(2) by simp
    have "Min ((\<lambda>c. Min (g ` set c)) ` set (c # cs)) =
          min (Min (g ` set c)) (Min ((\<lambda>c. Min (g ` set c)) ` set cs))"
      using False by simp
    also have "\<dots> = min (Min (g ` set c)) (Min (g ` set (concat cs)))" by (simp only: ih)
    also have "\<dots> = Min (g ` set c \<union> g ` set (concat cs))"
      using ne by (intro Min.union [symmetric]) simp_all
    finally show ?thesis by (simp add: image_Un)
  qed
qed

lemma finite_list_realOf:
  "\<forall>x \<in> set xs. \<exists>r. x = Finite r \<Longrightarrow> xs = map Finite (map realOf xs)"
  by (induction xs) auto

lemma foldl_accMax_set:
  assumes "xs \<noteq> []" "\<forall>x \<in> set xs. \<exists>r. x = Finite r"
  shows "foldl accMax NegInfinity xs = Finite (Max (realOf ` set xs))"
proof -
  have "foldl accMax NegInfinity (map Finite (map realOf xs)) = Finite (Max (set (map realOf xs)))"
    using assms(1) by (intro foldl_accMax_NegInfinity) simp
  then show ?thesis using finite_list_realOf [OF assms(2)] by simp
qed

lemma foldl_accMin_set:
  assumes "xs \<noteq> []" "\<forall>x \<in> set xs. \<exists>r. x = Finite r"
  shows "foldl accMin Infinity xs = Finite (Min (realOf ` set xs))"
proof -
  have "foldl accMin Infinity (map Finite (map realOf xs)) = Finite (Min (set (map realOf xs)))"
    using assms(1) by (intro foldl_accMin_Infinity) simp
  then show ?thesis using finite_list_realOf [OF assms(2)] by simp
qed

text \<open>The extreme of a coordinate over the zones is its extreme over the points.\<close>

lemma overall_extreme_Max:
  fixes sel :: "Bounds \<Rightarrow> number" and crd :: "'a POILike_scheme \<Rightarrow> real"
  assumes sel: "\<And>ps :: 'a POILike_scheme list. ps \<noteq> [] \<Longrightarrow> sel (calculateBounds ps) = Finite (Max (set (map crd ps)))"
    and parts: "cs \<noteq> []" "\<forall>c \<in> set cs. c \<noteq> []" "set (concat cs) = {0 ..< length pois}"
    and bs: "set bs = set (map (\<lambda>c. calculateBounds (map (\<lambda>i. pois ! i) c)) cs)"
  shows "foldl accMax NegInfinity (map sel bs) = Finite (Max (set (map crd pois)))"
proof -
  let ?g = "\<lambda>i. crd (pois ! i)"
  have each: "sel (calculateBounds (map (\<lambda>i. pois ! i) c)) = Finite (Max (?g ` set c))"
    if "c \<in> set cs" for c
  proof -
    have "map (\<lambda>i. pois ! i) c \<noteq> []" using parts(2) that by simp
    from sel [OF this] show ?thesis by (simp add: image_image)
  qed
  have setsel: "set (map sel bs) = (\<lambda>c. Finite (Max (?g ` set c))) ` set cs"
    using each by (auto simp: bs image_iff)
  have "bs \<noteq> []" using bs parts(1) by auto
  then have ne: "map sel bs \<noteq> []" by simp
  have fin: "\<forall>x \<in> set (map sel bs). \<exists>r. x = Finite r" unfolding setsel by auto
  have "foldl accMax NegInfinity (map sel bs) = Finite (Max (realOf ` set (map sel bs)))"
    using ne fin by (rule foldl_accMax_set)
  also have "realOf ` set (map sel bs) = (\<lambda>c. Max (?g ` set c)) ` set cs"
    unfolding setsel by (simp add: image_image)
  also have "Max ((\<lambda>c. Max (?g ` set c)) ` set cs) = Max (?g ` set (concat cs))"
    using parts(1,2) by (rule Max_of_Max_concat)
  also have "?g ` set (concat cs) = set (map crd (map (\<lambda>i. pois ! i) [0 ..< length pois]))"
    unfolding parts(3) by (simp add: image_image)
  also have "\<dots> = set (map crd pois)" by (simp only: map_nth)
  finally show ?thesis .
qed

lemma overall_extreme_Min:
  fixes sel :: "Bounds \<Rightarrow> number" and crd :: "'a POILike_scheme \<Rightarrow> real"
  assumes sel: "\<And>ps :: 'a POILike_scheme list. ps \<noteq> [] \<Longrightarrow> sel (calculateBounds ps) = Finite (Min (set (map crd ps)))"
    and parts: "cs \<noteq> []" "\<forall>c \<in> set cs. c \<noteq> []" "set (concat cs) = {0 ..< length pois}"
    and bs: "set bs = set (map (\<lambda>c. calculateBounds (map (\<lambda>i. pois ! i) c)) cs)"
  shows "foldl accMin Infinity (map sel bs) = Finite (Min (set (map crd pois)))"
proof -
  let ?g = "\<lambda>i. crd (pois ! i)"
  have each: "sel (calculateBounds (map (\<lambda>i. pois ! i) c)) = Finite (Min (?g ` set c))"
    if "c \<in> set cs" for c
  proof -
    have "map (\<lambda>i. pois ! i) c \<noteq> []" using parts(2) that by simp
    from sel [OF this] show ?thesis by (simp add: image_image)
  qed
  have setsel: "set (map sel bs) = (\<lambda>c. Finite (Min (?g ` set c))) ` set cs"
    using each by (auto simp: bs image_iff)
  have "bs \<noteq> []" using bs parts(1) by auto
  then have ne: "map sel bs \<noteq> []" by simp
  have fin: "\<forall>x \<in> set (map sel bs). \<exists>r. x = Finite r" unfolding setsel by auto
  have "foldl accMin Infinity (map sel bs) = Finite (Min (realOf ` set (map sel bs)))"
    using ne fin by (rule foldl_accMin_set)
  also have "realOf ` set (map sel bs) = (\<lambda>c. Min (?g ` set c)) ` set cs"
    unfolding setsel by (simp add: image_image)
  also have "Min ((\<lambda>c. Min (?g ` set c)) ` set cs) = Min (?g ` set (concat cs))"
    using parts(1,2) by (rule Min_of_Min_concat)
  also have "?g ` set (concat cs) = set (map crd (map (\<lambda>i. pois ! i) [0 ..< length pois]))"
    unfolding parts(3) by (simp add: image_image)
  also have "\<dots> = set (map crd pois)" by (simp only: map_nth)
  finally show ?thesis .
qed

lemma clusterPOIs_set: "set (concat (clusterPOIs pois config)) = {0 ..< length pois}"
proof -
  have "set_mset (mset (concat (clusterPOIs pois config))) = set_mset (mset [0 ..< length pois])"
    by (simp only: clusterPOIs_partition)
  then show ?thesis by simp
qed

section \<open>The distance\<close>

lemma haversineDistance_sym:
  "haversineDistance lat1 lng1 lat2 lng2 = haversineDistance lat2 lng2 lat1 lng1"
proof -
  have neg: "toRad (x - y) / 2 = - (toRad (y - x) / 2)" for x y
    by (simp add: toRad_def field_simps)
  have sq: "sin (toRad (x - y) / 2) * sin (toRad (x - y) / 2) =
            sin (toRad (y - x) / 2) * sin (toRad (y - x) / 2)" for x y
    by (simp add: neg [of x y])
  have "sin (toRad (lat2 - lat1) / 2) * sin (toRad (lat2 - lat1) / 2) +
        cos (toRad lat1) * cos (toRad lat2) *
          sin (toRad (lng2 - lng1) / 2) * sin (toRad (lng2 - lng1) / 2) =
        sin (toRad (lat1 - lat2) / 2) * sin (toRad (lat1 - lat2) / 2) +
        cos (toRad lat2) * cos (toRad lat1) *
          sin (toRad (lng1 - lng2) / 2) * sin (toRad (lng1 - lng2) / 2)"
    using sq [of lat2 lat1] sq [of lng2 lng1] by (simp add: mult.assoc mult.left_commute)
  then show ?thesis by (simp add: haversineDistance_def Let_def)
qed

lemma haversineDistance_meridian:
  assumes "0 < d" "d < pi"
  shows "haversineDistance 0 0 (d * 180 / pi) 0 = EARTH_RADIUS_METERS * d"
proof -
  have r: "toRad (d * 180 / pi - 0) = d" by (simp add: toRad_def)
  have h: "0 < d / 2" "d / 2 < pi / 2" using assms by simp_all
  have s: "0 < sin (d / 2)" using h by (intro sin_gt_zero) simp_all
  have c: "0 < cos (d / 2)" using h by (intro cos_gt_zero) simp_all
  have "1 - sin (d / 2) * sin (d / 2) = cos (d / 2) * cos (d / 2)"
    using sin_cos_squared_add3 [of "d / 2"] by linarith
  then have c2: "sqrt (1 - sin (d / 2) * sin (d / 2)) = cos (d / 2)"
    using c by (simp add: real_sqrt_abs2)
  have s2: "sqrt (sin (d / 2) * sin (d / 2)) = sin (d / 2)"
    using s by (simp add: real_sqrt_abs2)
  have "arctan (sin (d / 2) / cos (d / 2)) = d / 2"
    using arctan_tan [of "d / 2"] h by (simp add: tan_def)
  then have "atan2 (sin (d / 2)) (cos (d / 2)) = d / 2"
    using c by (simp add: atan2_def)
  then show ?thesis
    unfolding haversineDistance_def Let_def r
    using s by (simp add: toRad_def s2 c2 abs_of_pos)
qed

lemma haversineDistance_northPoint:
  "haversineDistance (lat originPoint) (lng originPoint) (lat northPoint) (lng northPoint) = 10"
proof -
  have "(10 / 6371000 :: real) < pi" using pi_ge_two by simp
  from haversineDistance_meridian [of "10 / 6371000", OF _ this]
  show ?thesis by (simp add: originPoint_def northPoint_def EARTH_RADIUS_METERS_def)
qed

section \<open>Two points within the cluster radius\<close>

lemma upt_2_Suc: "[0 ..< Suc (Suc 0)] = [0, Suc 0]"
  by (simp add: upt_rec)

lemma greedyClusters_pair:
  assumes "haversineDistance (lat p0) (lng p0) (lat p1) (lng p1) \<le> clusterRadiusMeters config"
    and "2 \<le> maxPoisPerZone config"
  shows "greedyClusters [p0, p1] config = [if lat p0 < lat p1 then [1, 0] else [0, 1]]"
proof -
  have near: "haversineDistance (lat p1) (lng p1) (lat p0) (lng p0) \<le> clusterRadiusMeters config"
    using assms(1) by (simp only: haversineDistance_sym [of "lat p1"])
  have "\<exists>m. maxPoisPerZone config = Suc (Suc m)" using assms(2) by presburger
  then obtain m where m: "maxPoisPerZone config - Suc 0 = Suc m" by auto
  show ?thesis
  proof (cases "lat p0 < lat p1")
    case True
    then have s: "js_sort (\<lambda>a b. Finite (lat ([p0, p1] ! b) - lat ([p0, p1] ! a))) [0 ..< length [p0, p1]]
        = [Suc 0, 0]"
      by (simp add: js_sort_def upt_2_Suc)
    show ?thesis
      unfolding greedyClusters_def s Let_def
      using True near
      by (simp add: seedLoop_step seedCluster_def findCandidates_def js_sort_def m
          del: seedLoop.simps(2))
  next
    case False
    then have s: "js_sort (\<lambda>a b. Finite (lat ([p0, p1] ! b) - lat ([p0, p1] ! a))) [0 ..< length [p0, p1]]
        = [0, Suc 0]"
      by (simp add: js_sort_def upt_2_Suc)
    show ?thesis
      unfolding greedyClusters_def s Let_def
      using False assms(1)
      by (simp add: seedLoop_step seedCluster_def findCandidates_def js_sort_def m
          del: seedLoop.simps(2))
  qed
qed

section \<open>Identifiers and orders of the zones\<close>

lemma zone_id_relabel:
  "map zone_id (map (\<lambda>(index, zone). zone\<lparr>zone_id := zoneName index\<rparr>) (enumerate n zs)) =
   map zoneName [n ..< n + length zs]"
proof (induction zs arbitrary: n)
  case Nil
  then show ?case by simp
next
  case (Cons z zs)
  have "[n ..< n + length (z # zs)] = n # [Suc n ..< Suc n + length zs]"
    by (simp add: upt_rec)
  then show ?case using Cons.IH [of "Suc n"] by simp
qed

lemma zone_id_planZones:
  "map zone_id (planZones calculateCenter calculateZoom pois config) =
   map zoneName [0 ..< length (planZones calculateCenter calculateZoom pois config)]"
proof (cases "pois = []")
  case True
  then show ?thesis by (simp add: planZones_def planZonesWith_def)
next
  case False
  show ?thesis
    unfolding planZones_nonempty [OF False]
    using zone_id_relabel [of 0] by simp
qed

section \<open>The first nearest partner\<close>

lemma foldl_bestStep_first:
  "m \<le> length w \<Longrightarrow>
   fst (foldl (\<lambda>best j. bestStep pois config w i j best) (None, Infinity) [0 ..< m]) = Some j \<Longrightarrow>
   (\<forall>k < j. eligible pois config w i k \<longrightarrow>
      centroidDistance pois w i j < centroidDistance pois w i k)"
proof (induction m arbitrary: j)
  case 0
  then show ?case by simp
next
  case (Suc m)
  let ?f = "\<lambda>best j. bestStep pois config w i j best"
  let ?prev = "foldl ?f (None, Infinity) [0 ..< m]"
  have m: "m \<le> length w" using Suc.prems(1) by simp
  have unfold: "foldl ?f (None, Infinity) [0 ..< Suc m] = bestStep pois config w i m ?prev"
    by simp
  from foldl_bestStep_inv [OF m, of pois config i] consider
    (none) "?prev = (None, Infinity)" "\<forall>k < m. \<not> eligible pois config w i k"
    | (some) j' where "j' < m" "?prev = (Some j', Finite (centroidDistance pois w i j'))"
        "\<forall>k < m. eligible pois config w i k \<longrightarrow>
           centroidDistance pois w i j' \<le> centroidDistance pois w i k"
    by blast
  then show ?case
  proof cases
    case none
    then have "j = m" using Suc.prems(2) unfolding unfold
      by (auto simp: bestStep_eq split: if_splits)
    then show ?thesis using none(2) by simp
  next
    case some
    show ?thesis
    proof (cases "j = j'")
      case True
      have "fst ?prev = Some j'" using some(2) by simp
      from Suc.IH [OF m this] True show ?thesis by simp
    next
      case False
      then have jm: "j = m" and lt: "centroidDistance pois w i m < centroidDistance pois w i j'"
        using Suc.prems(2) some(2) unfolding unfold
        by (auto simp: bestStep_eq split: if_splits)
      show ?thesis using some(3) lt jm by fastforce
    qed
  qed
qed

lemma findBestMerge_first:
  "fst (findBestMerge pois config w i) = Some j \<Longrightarrow>
   \<forall>k < j. eligible pois config w i k \<longrightarrow>
      centroidDistance pois w i j < centroidDistance pois w i k"
  using foldl_bestStep_first [of "length w" w pois config i j]
  by (simp add: findBestMerge_def)

lemma mergeScan_first:
  "mergeScan pois config w i0 = Some merged \<Longrightarrow>
   \<exists>i j. i0 \<le> i \<and> i < length w \<and> length (w ! i) < minPoisPerZone config \<and>
     (\<forall>i'. i0 \<le> i' \<and> i' < i \<and> length (w ! i') < minPoisPerZone config \<longrightarrow>
        (\<forall>k. \<not> eligible pois config w i' k)) \<and>
     fst (findBestMerge pois config w i) = Some j \<and>
     merged = splice1 j (w[i := w ! i @ w ! j])"
proof (induction pois config w i0 rule: mergeScan.induct)
  case (1 pois config w i0)
  note eq = mergeScan.simps [of pois config w i0]
  show ?case
  proof (cases "i0 < length w")
    case False
    with "1.prems" show ?thesis by (simp add: eq)
  next
    case inrange: True
    show ?thesis
    proof (cases "length (w ! i0) \<ge> minPoisPerZone config")
      case True
      with inrange "1.prems" have "mergeScan pois config w (Suc i0) = Some merged"
        by (simp add: eq)
      from "1.IH"(1) [OF _ True this] inrange obtain i j where ij:
        "Suc i0 \<le> i" "i < length w" "length (w ! i) < minPoisPerZone config"
        "\<forall>i'. Suc i0 \<le> i' \<and> i' < i \<and> length (w ! i') < minPoisPerZone config \<longrightarrow>
           (\<forall>k. \<not> eligible pois config w i' k)"
        "fst (findBestMerge pois config w i) = Some j"
        "merged = splice1 j (w[i := w ! i @ w ! j])"
        by auto
      have "\<forall>i'. i0 \<le> i' \<and> i' < i \<and> length (w ! i') < minPoisPerZone config \<longrightarrow>
           (\<forall>k. \<not> eligible pois config w i' k)"
      proof (rule allI, rule impI)
        fix i' assume a: "i0 \<le> i' \<and> i' < i \<and> length (w ! i') < minPoisPerZone config"
        then have "i' \<noteq> i0" using True by auto
        then have "Suc i0 \<le> i'" using a by simp
        then show "\<forall>k. \<not> eligible pois config w i' k" using ij(4) a by blast
      qed
      moreover have "i0 \<le> i" using ij(1) by simp
      ultimately show ?thesis using ij(2,3,5,6) by blast
    next
      case small: False
      show ?thesis
      proof (cases "fst (findBestMerge pois config w i0)")
        case None
        with inrange small "1.prems" have "mergeScan pois config w (Suc i0) = Some merged"
          by (simp add: eq)
        from "1.IH"(2) [OF _ small None this] inrange obtain i j where ij:
          "Suc i0 \<le> i" "i < length w" "length (w ! i) < minPoisPerZone config"
          "\<forall>i'. Suc i0 \<le> i' \<and> i' < i \<and> length (w ! i') < minPoisPerZone config \<longrightarrow>
             (\<forall>k. \<not> eligible pois config w i' k)"
          "fst (findBestMerge pois config w i) = Some j"
          "merged = splice1 j (w[i := w ! i @ w ! j])"
          by auto
        have none0: "\<forall>k. \<not> eligible pois config w i0 k"
          using None by (simp add: findBestMerge_None)
        have "\<forall>i'. i0 \<le> i' \<and> i' < i \<and> length (w ! i') < minPoisPerZone config \<longrightarrow>
             (\<forall>k. \<not> eligible pois config w i' k)"
        proof (rule allI, rule impI)
          fix i' assume a: "i0 \<le> i' \<and> i' < i \<and> length (w ! i') < minPoisPerZone config"
          show "\<forall>k. \<not> eligible pois config w i' k"
          proof (cases "i' = i0")
            case True
            then show ?thesis using none0 by simp
          next
            case False
            then have "Suc i0 \<le> i'" using a by simp
            then show ?thesis using ij(4) a by blast
          qed
        qed
        moreover have "i0 \<le> i" using ij(1) by simp
        ultimately show ?thesis using ij(2,3,5,6) by blast
      next
        case (Some j)
        from Some inrange small "1.prems"
        have m: "merged = splice1 j (w[i0 := w ! i0 @ w ! j])"
          by (simp add: eq)
        have "length (w ! i0) < minPoisPerZone config" using small by simp
        with Some m inrange show ?thesis
          by (intro exI [of _ i0] exI [of _ j]) auto
      qed
    qed
  qed
qed

section \<open>The result of the merge stage\<close>

lemma mergeScan_short: "length w \<le> 1 \<Longrightarrow> mergeScan pois config w 0 = None"
proof -
  assume "length w \<le> 1"
  then have "\<not> eligible pois config w i k" if "i < length w" for i k
    using that by (auto simp: eligible_def)
  then show ?thesis by (simp add: mergeScan_None)
qed

lemma mergeSmallClusters_step:
  assumes "mergeScan pois config w 0 = Some merged"
  shows "mergeSmallClusters w pois config = mergeSmallClusters merged pois config"
proof -
  have "\<not> length w \<le> 1" using assms mergeScan_short [of w pois config] by auto
  then have "mergeSmallClusters w pois config = mergeWhile pois config merged"
    using mergeWhile_Some [OF assms] by (simp add: mergeSmallClusters_def)
  moreover have "mergeSmallClusters merged pois config = mergeWhile pois config merged"
    using mergeWhile_None [OF mergeScan_short, of merged pois config]
    by (simp add: mergeSmallClusters_def)
  ultimately show ?thesis by simp
qed

lemma mergeScan_mergeWhile: "mergeScan pois config (mergeWhile pois config w) 0 = None"
proof (induction pois config w rule: mergeWhile.induct)
  case (1 pois config w)
  show ?case
  proof (cases "mergeScan pois config w 0")
    case None
    then show ?thesis by (simp add: mergeWhile_None)
  next
    case (Some merged)
    from "1.IH" [OF Some] show ?thesis by (simp add: mergeWhile_Some [OF Some])
  qed
qed

lemma mergeScan_mergeSmallClusters:
  "mergeScan pois config (mergeSmallClusters w pois config) 0 = None"
  by (simp add: mergeSmallClusters_def mergeScan_short mergeScan_mergeWhile)


section \<open>Distances on a meridian\<close>

lemma haversineDistance_same_lng:
  assumes "\<bar>toRad (lat2 - lat1)\<bar> < pi"
  shows "haversineDistance lat1 lng0 lat2 lng0 = EARTH_RADIUS_METERS * \<bar>toRad (lat2 - lat1)\<bar>"
proof -
  define d where "d = toRad (lat2 - lat1)"
  define e where "e = \<bar>d\<bar> / 2"
  have e: "0 \<le> e" "e < pi / 2" using assms by (simp_all add: e_def d_def)
  have se: "\<bar>sin (d / 2)\<bar> = sin e"
  proof (cases "0 \<le> d")
    case True
    then have "d / 2 = e" by (simp add: e_def)
    moreover have "0 \<le> sin e" using e by (intro sin_ge_zero) simp_all
    ultimately show ?thesis by simp
  next
    case False
    then have "d / 2 = - e" by (simp add: e_def)
    moreover have "0 \<le> sin e" using e by (intro sin_ge_zero) simp_all
    ultimately show ?thesis by simp
  qed
  have ce: "cos (d / 2) = cos e"
    by (cases "0 \<le> d") (simp_all add: e_def)
  have cpos: "0 < cos e" using e by (intro cos_gt_zero_pi) simp_all
  have "1 - sin (d / 2) * sin (d / 2) = cos (d / 2) * cos (d / 2)"
    using sin_cos_squared_add3 [of "d / 2"] by linarith
  then have c2: "sqrt (1 - sin (d / 2) * sin (d / 2)) = cos e"
    using cpos by (simp add: real_sqrt_abs2 ce)
  have s2: "sqrt (sin (d / 2) * sin (d / 2)) = sin e"
    by (simp add: real_sqrt_abs2 se)
  have "arctan (sin e / cos e) = e"
    using arctan_tan [of e] e by (simp add: tan_def)
  then have at: "atan2 (sin e) (cos e) = e"
    using cpos by (simp add: atan2_def)
  have a: "sin (d / 2) * sin (d / 2) +
        cos (toRad lat1) * cos (toRad lat2) * sin (toRad (lng0 - lng0) / 2) *
          sin (toRad (lng0 - lng0) / 2) = sin (d / 2) * sin (d / 2)"
    by (simp add: toRad_def)
  show ?thesis
    unfolding haversineDistance_def Let_def d_def [symmetric] a s2 c2 at
    by (simp add: e_def)
qed

lemma distance_metresNorth:
  assumes "\<bar>b - a\<bar> < 6371000"
  shows "haversineDistance (lat (metresNorth a)) (lng (metresNorth a))
           (lat (metresNorth b)) (lng (metresNorth b)) = \<bar>b - a\<bar>"
proof -
  have r: "toRad (lat (metresNorth b) - lat (metresNorth a)) = (b - a) / 6371000"
    by (simp add: toRad_def metresNorth_def field_simps)
  have "\<bar>(b - a) / 6371000\<bar> < 1" using assms by simp
  then have "\<bar>toRad (lat (metresNorth b) - lat (metresNorth a))\<bar> < pi"
    unfolding r using pi_ge_two by linarith
  from haversineDistance_same_lng [OF this, of 0] show ?thesis
    unfolding r by (simp add: metresNorth_def EARTH_RADIUS_METERS_def)
qed

lemma getClusterCenter_meridianPoints:
  "getClusterCenter meridianPoints [0] = metresNorth 0"
  "getClusterCenter meridianPoints [Suc 0] = metresNorth 20"
  "getClusterCenter meridianPoints [2] = metresNorth 10"
  "getClusterCenter meridianPoints [0, 2] = metresNorth 5"
  by (simp_all add: getClusterCenter_def meridianPoints_def metresNorth_def)

lemma centroidDistance_meridianPoints:
  "centroidDistance meridianPoints [[0], [Suc 0], [2]] 0 (Suc 0) = 20"
  "centroidDistance meridianPoints [[0], [Suc 0], [2]] 0 (Suc (Suc 0)) = 10"
  "centroidDistance meridianPoints [[0, 2], [Suc 0]] 0 (Suc 0) = 15"
  by (simp_all add: centroidDistance_def getClusterCenter_meridianPoints distance_metresNorth)

lemma findBestMerge_meridianPoints:
  "findBestMerge meridianPoints DEFAULT_CONFIG [[0], [Suc 0], [2]] 0 = (Some (Suc (Suc 0)), Finite 10)"
  "findBestMerge meridianPoints DEFAULT_CONFIG [[0, 2], [Suc 0]] 0 = (Some (Suc 0), Finite 15)"
  by (simp_all add: findBestMerge_def bestStep_eq centroidDistance_meridianPoints)

lemma mergeScan_meridianPoints:
  "mergeScan meridianPoints DEFAULT_CONFIG [[0], [Suc 0], [2]] 0 = Some [[0, 2], [Suc 0]]"
  "mergeScan meridianPoints DEFAULT_CONFIG [[0, 2], [Suc 0]] 0 = Some [[0, 2, Suc 0]]"
  by (simp_all add: mergeScan.simps [of _ _ _ 0] findBestMerge_meridianPoints splice1_def)

lemma mergeSmallClusters_meridianPoints:
  "mergeSmallClusters [[0], [Suc 0], [2]] meridianPoints DEFAULT_CONFIG = [[0, 2, Suc 0]]"
proof -
  have "mergeSmallClusters [[0], [Suc 0], [2]] meridianPoints DEFAULT_CONFIG =
        mergeSmallClusters [[0, 2], [Suc 0]] meridianPoints DEFAULT_CONFIG"
    by (rule mergeSmallClusters_step [OF mergeScan_meridianPoints(1)])
  also have "\<dots> = mergeSmallClusters [[0, 2, Suc 0]] meridianPoints DEFAULT_CONFIG"
    by (rule mergeSmallClusters_step [OF mergeScan_meridianPoints(2)])
  also have "\<dots> = [[0, 2, Suc 0]]" by (simp add: mergeSmallClusters_def)
  finally show ?thesis .
qed

lemma distantPoints_not_eligible:
  "i < length [[0], [Suc 0]] \<Longrightarrow> \<not> eligible distantPoints DEFAULT_CONFIG [[0], [Suc 0]] i k"
proof
  have c: "getClusterCenter distantPoints [0] = metresNorth 0"
    "getClusterCenter distantPoints [Suc 0] = metresNorth 5000"
    by (simp_all add: getClusterCenter_def distantPoints_def metresNorth_def)
  have d: "centroidDistance distantPoints [[0], [Suc 0]] 0 (Suc 0) = 5000"
    "centroidDistance distantPoints [[0], [Suc 0]] (Suc 0) 0 = 5000"
    by (simp_all add: centroidDistance_def c distance_metresNorth)
  assume "i < length [[0], [Suc 0]]" and e: "eligible distantPoints DEFAULT_CONFIG [[0], [Suc 0]] i k"
  then have "i = 0 \<or> i = Suc 0" "k = 0 \<or> k = Suc 0" "k \<noteq> i"
    "centroidDistance distantPoints [[0], [Suc 0]] i k \<le> 3000"
    by (auto simp: eligible_def)
  then show False using d by auto
qed

section \<open>Consistent comparators\<close>

lemma sign_exclusive: "\<not> (isNegative v \<and> isPositive v)"
  by (cases v) (auto simp: isNegative_def isPositive_def)

lemma consistent_refl:
  assumes "consistentComparator cmp S" "a \<in> S"
  shows "\<not> isNegative (cmp a a) \<and> \<not> isPositive (cmp a a)"
proof -
  have "\<forall>a \<in> S. \<not> isNegative (cmp a a) \<and> \<not> isPositive (cmp a a)"
    using assms(1) unfolding consistentComparator_def by (elim conjE) assumption
  then show ?thesis using assms(2) by (rule bspec)
qed

lemma consistent_sym:
  assumes "consistentComparator cmp S" "a \<in> S" "b \<in> S"
    and "\<not> isNegative (cmp a b) \<and> \<not> isPositive (cmp a b)"
  shows "\<not> isNegative (cmp b a) \<and> \<not> isPositive (cmp b a)"
proof -
  have "\<forall>a \<in> S. \<forall>b \<in> S.
         \<not> isNegative (cmp a b) \<and> \<not> isPositive (cmp a b) \<longrightarrow>
         \<not> isNegative (cmp b a) \<and> \<not> isPositive (cmp b a)"
    using assms(1) unfolding consistentComparator_def by (elim conjE) assumption
  then have "\<not> isNegative (cmp a b) \<and> \<not> isPositive (cmp a b) \<longrightarrow>
         \<not> isNegative (cmp b a) \<and> \<not> isPositive (cmp b a)"
    using assms(2,3) by blast
  then show ?thesis using assms(4) by (rule mp)
qed

lemma consistent_eq_trans:
  assumes "consistentComparator cmp S" "a \<in> S" "b \<in> S" "d \<in> S"
    and "\<not> isNegative (cmp a b) \<and> \<not> isPositive (cmp a b)"
    and "\<not> isNegative (cmp b d) \<and> \<not> isPositive (cmp b d)"
  shows "\<not> isNegative (cmp a d) \<and> \<not> isPositive (cmp a d)"
proof -
  have "\<forall>a \<in> S. \<forall>b \<in> S. \<forall>d \<in> S.
         \<not> isNegative (cmp a b) \<and> \<not> isPositive (cmp a b) \<and>
         \<not> isNegative (cmp b d) \<and> \<not> isPositive (cmp b d) \<longrightarrow>
         \<not> isNegative (cmp a d) \<and> \<not> isPositive (cmp a d)"
    using assms(1) unfolding consistentComparator_def by (elim conjE) assumption
  then have "\<not> isNegative (cmp a b) \<and> \<not> isPositive (cmp a b) \<and>
         \<not> isNegative (cmp b d) \<and> \<not> isPositive (cmp b d) \<longrightarrow>
         \<not> isNegative (cmp a d) \<and> \<not> isPositive (cmp a d)"
    using assms(2,3,4) by blast
  then show ?thesis using assms(5,6) by simp
qed

lemma consistent_lt_trans:
  assumes "consistentComparator cmp S" "a \<in> S" "b \<in> S" "d \<in> S"
    and "isNegative (cmp a b)" "isNegative (cmp b d)"
  shows "isNegative (cmp a d)"
proof -
  have "\<forall>a \<in> S. \<forall>b \<in> S. \<forall>d \<in> S.
         isNegative (cmp a b) \<and> isNegative (cmp b d) \<longrightarrow> isNegative (cmp a d)"
    using assms(1) unfolding consistentComparator_def by (elim conjE) assumption
  then have "isNegative (cmp a b) \<and> isNegative (cmp b d) \<longrightarrow> isNegative (cmp a d)"
    using assms(2,3,4) by blast
  then show ?thesis using assms(5,6) by simp
qed

lemma consistent_gt_trans:
  assumes "consistentComparator cmp S" "a \<in> S" "b \<in> S" "d \<in> S"
    and "isPositive (cmp a b)" "isPositive (cmp b d)"
  shows "isPositive (cmp a d)"
proof -
  have "\<forall>a \<in> S. \<forall>b \<in> S. \<forall>d \<in> S.
         isPositive (cmp a b) \<and> isPositive (cmp b d) \<longrightarrow> isPositive (cmp a d)"
    using assms(1) unfolding consistentComparator_def by (elim conjE) assumption
  then have "isPositive (cmp a b) \<and> isPositive (cmp b d) \<longrightarrow> isPositive (cmp a d)"
    using assms(2,3,4) by blast
  then show ?thesis using assms(5,6) by simp
qed

lemma consistent_antisym:
  assumes c: "consistentComparator cmp S" and a: "a \<in> S" and b: "b \<in> S"
  shows "isNegative (cmp a b) \<longleftrightarrow> isPositive (cmp b a)"
proof
  assume ab: "isNegative (cmp a b)"
  show "isPositive (cmp b a)"
  proof (rule ccontr)
    assume np: "\<not> isPositive (cmp b a)"
    show False
    proof (cases "isNegative (cmp b a)")
      case True
      have "isNegative (cmp a a)" using consistent_lt_trans [OF c a b a ab True] .
      then show False using consistent_refl [OF c a] by simp
    next
      case False
      have "\<not> isNegative (cmp a b) \<and> \<not> isPositive (cmp a b)"
        using consistent_sym [OF c b a] False np by simp
      then show False using ab by simp
    qed
  qed
next
  assume ba: "isPositive (cmp b a)"
  show "isNegative (cmp a b)"
  proof (rule ccontr)
    assume nn: "\<not> isNegative (cmp a b)"
    show False
    proof (cases "isPositive (cmp a b)")
      case True
      have "isPositive (cmp b b)" using consistent_gt_trans [OF c b a b ba True] .
      then show False using consistent_refl [OF c b] by simp
    next
      case False
      have "\<not> isNegative (cmp b a) \<and> \<not> isPositive (cmp b a)"
        using consistent_sym [OF c a b] False nn by simp
      then show False using ba by simp
    qed
  qed
qed

lemma consistent_trans:
  assumes c: "consistentComparator cmp S" and m: "a \<in> S" "b \<in> S" "d \<in> S"
    and ab: "\<not> isNegative (cmp b a)" and bd: "\<not> isNegative (cmp d b)"
  shows "\<not> isNegative (cmp d a)"
proof
  assume da: "isNegative (cmp d a)"
  note anti = consistent_antisym [OF c]
  show False
  proof (cases "isNegative (cmp a b)")
    case True
    have "isNegative (cmp d b)" using consistent_lt_trans [OF c m(3) m(1) m(2) da True] .
    then show False using bd by simp
  next
    case False
    then have ab_eq: "\<not> isNegative (cmp a b) \<and> \<not> isPositive (cmp a b)"
      using ab anti [OF m(2) m(1)] by simp
    show False
    proof (cases "isNegative (cmp b d)")
      case True
      have "isNegative (cmp b a)" using consistent_lt_trans [OF c m(2) m(3) m(1) True da] .
      then show False using ab by simp
    next
      case False
      then have bd_eq: "\<not> isNegative (cmp b d) \<and> \<not> isPositive (cmp b d)"
        using bd anti [OF m(3) m(2)] by simp
      have "\<not> isNegative (cmp a d) \<and> \<not> isPositive (cmp a d)"
        using consistent_eq_trans [OF c m(1) m(2) m(3) ab_eq bd_eq] .
      then have "\<not> isNegative (cmp d a)" using consistent_sym [OF c m(1) m(3)] by simp
      then show False using da by simp
    qed
  qed
qed

section \<open>The insertion sort meets the contract\<close>

lemma set_js_insert: "set (js_insert cmp x xs) = insert x (set xs)"
  by (induction xs) auto

lemma sorted_js_insert:
  assumes c: "consistentComparator cmp S" and x: "x \<in> S" and xs: "set xs \<subseteq> S"
    and sorted: "sorted_wrt (\<lambda>a b. \<not> isNegative (cmp b a)) xs"
  shows "sorted_wrt (\<lambda>a b. \<not> isNegative (cmp b a)) (js_insert cmp x xs)"
  using xs sorted
proof (induction xs)
  case Nil
  then show ?case by simp
next
  case (Cons y ys)
  have y: "y \<in> S" and ys: "set ys \<subseteq> S" using Cons.prems(1) by simp_all
  have tail: "sorted_wrt (\<lambda>a b. \<not> isNegative (cmp b a)) ys"
    and head: "\<forall>z \<in> set ys. \<not> isNegative (cmp z y)"
    using Cons.prems(2) by simp_all
  show ?case
  proof (cases "js_gt (cmp x y) (Finite 0)")
    case True
    then have "isPositive (cmp x y)" by (simp add: isPositive_def)
    then have "\<not> isNegative (cmp x y)" using sign_exclusive by blast
    then have "\<forall>z \<in> set (js_insert cmp x ys). \<not> isNegative (cmp z y)"
      using head by (simp add: set_js_insert)
    then show ?thesis using True Cons.IH [OF ys tail] by simp
  next
    case False
    then have "\<not> isPositive (cmp x y)" by (simp add: isPositive_def)
    then have xy: "\<not> isNegative (cmp y x)" using consistent_antisym [OF c y x] by simp
    have "\<not> isNegative (cmp z x)" if "z \<in> set ys" for z
      using consistent_trans [OF c x y _ xy] head that ys by blast
    then show ?thesis using False xy Cons.prems(2) by simp
  qed
qed

lemma sorted_js_sort:
  assumes "consistentComparator cmp S" "set xs \<subseteq> S"
  shows "sorted_wrt (\<lambda>a b. \<not> isNegative (cmp b a)) (js_sort cmp xs)"
  using assms(2)
proof (induction xs)
  case Nil
  then show ?case by (simp add: js_sort_def)
next
  case (Cons x xs)
  have "set (js_sort cmp xs) \<subseteq> S" using Cons.prems by (simp add: set_js_sort)
  moreover have "sorted_wrt (\<lambda>a b. \<not> isNegative (cmp b a)) (js_sort cmp xs)"
    using Cons by simp
  ultimately have "sorted_wrt (\<lambda>a b. \<not> isNegative (cmp b a)) (js_insert cmp x (js_sort cmp xs))"
    using Cons.prems by (intro sorted_js_insert [OF assms(1)]) simp_all
  then show ?case by (simp add: js_sort_def)
qed

lemma js_sort_contract: "sortContract js_sort cmp xs"
  by (simp add: sortContract_def mset_js_sort sorted_js_sort [where S = "set xs"])

section \<open>Rounded differences\<close>

lemma js_abs_js_neg [simp]: "js_abs (js_neg v) = js_abs v"
  by (cases v) simp_all

lemma isNegative_js_neg: "isNegative (js_neg v) = js_lt (Finite 0) v"
  by (cases v) (simp_all add: isNegative_def)

lemma isPositive_js_neg: "isPositive (js_neg v) = js_lt v (Finite 0)"
  by (cases v) (simp_all add: isPositive_def js_gt_def)

lemma js_abs_nonneg: "js_le (Finite 0) v \<Longrightarrow> js_abs v = v"
  by (cases v) (auto simp: js_le_def)

lemma js_le_gt_trans: "js_le a b \<Longrightarrow> js_gt a c \<Longrightarrow> js_gt b c"
  by (cases a; cases b; cases c) (auto simp: js_le_def js_gt_def)

lemma js_le_trans: "js_le a b \<Longrightarrow> js_le b c \<Longrightarrow> js_le a c"
  by (cases a; cases b; cases c) (auto simp: js_le_def)

lemma roundingLaws_Finite: "roundingLaws Finite"
  by (auto simp: roundingLaws_def js_le_def representable_def)

lemma fl_not_NaN: "roundingLaws fl \<Longrightarrow> fl x \<noteq> NaN"
  by (simp add: roundingLaws_def)

lemma fl_zero: "roundingLaws fl \<Longrightarrow> fl 0 = Finite 0"
  by (simp add: roundingLaws_def)

lemma fl_mono: "roundingLaws fl \<Longrightarrow> x \<le> y \<Longrightarrow> js_le (fl x) (fl y)"
  by (simp add: roundingLaws_def)

lemma fl_minus: "roundingLaws fl \<Longrightarrow> fl (- x) = js_neg (fl x)"
  by (simp add: roundingLaws_def)

lemma fl_diff_pos:
  assumes "roundingLaws fl" "representable fl x" "representable fl y" "x < y"
  shows "js_lt (Finite 0) (fl (y - x))"
proof -
  have "\<forall>x y. representable fl x \<and> representable fl y \<and> x < y \<longrightarrow>
         js_lt (Finite 0) (fl (y - x))"
    using assms(1) unfolding roundingLaws_def by (elim conjE) assumption
  then show ?thesis using assms(2,3,4) by blast
qed

lemma fl_diff_negative:
  assumes l: "roundingLaws fl" and x: "representable fl x" and y: "representable fl y"
  shows "isNegative (fl (x - y)) \<longleftrightarrow> x < y"
proof (cases x y rule: linorder_cases)
  case less
  have "fl (x - y) = js_neg (fl (y - x))" using fl_minus [OF l, of "y - x"] by simp
  then show ?thesis using fl_diff_pos [OF l x y less] less by (simp add: isNegative_js_neg)
next
  case equal
  then show ?thesis by (simp add: fl_zero [OF l] isNegative_def)
next
  case greater
  have "js_lt (Finite 0) (fl (x - y))" using fl_diff_pos [OF l y x greater] .
  then have "\<not> js_lt (fl (x - y)) (Finite 0)" by (rule js_lt_asym)
  then show ?thesis using greater by (simp add: isNegative_def)
qed

lemma fl_diff_positive:
  assumes l: "roundingLaws fl" and x: "representable fl x" and y: "representable fl y"
  shows "isPositive (fl (x - y)) \<longleftrightarrow> y < x"
proof -
  have "fl (x - y) = js_neg (fl (y - x))" using fl_minus [OF l, of "y - x"] by simp
  then have "isPositive (fl (x - y)) \<longleftrightarrow> isNegative (fl (y - x))"
    by (simp add: isPositive_js_neg isNegative_def)
  then show ?thesis using fl_diff_negative [OF l y x] by simp
qed

lemma abs_fl_swap:
  assumes "roundingLaws fl"
  shows "js_abs (fl (x - y)) = js_abs (fl (y - x))"
proof -
  have "fl (x - y) = js_neg (fl (y - x))" using fl_minus [OF assms, of "y - x"] by simp
  then show ?thesis by simp
qed

lemma abs_fl_mono:
  assumes l: "roundingLaws fl" and "0 \<le> d" "d \<le> e"
  shows "js_le (js_abs (fl d)) (js_abs (fl e))"
proof -
  have d: "js_le (Finite 0) (fl d)" using fl_mono [OF l assms(2)] by (simp add: fl_zero [OF l])
  have "0 \<le> e" using assms(2,3) by simp
  then have e: "js_le (Finite 0) (fl e)" using fl_mono [OF l, of 0 e] by (simp add: fl_zero [OF l])
  show ?thesis using fl_mono [OF l assms(3)] by (simp add: js_abs_nonneg [OF d] js_abs_nonneg [OF e])
qed

section \<open>The row test\<close>

lemma rowFar_Finite:
  "north A = Finite an \<Longrightarrow> north B = Finite bn \<Longrightarrow>
   rowFar fl c A B = js_gt (js_abs (fl (an - bn))) (Finite c)"
  by (simp add: rowFar_def)

lemma rowFar_sym:
  assumes "roundingLaws fl" "north A = Finite an" "north B = Finite bn"
  shows "rowFar fl c A B = rowFar fl c B A"
  by (simp add: rowFar_Finite [OF assms(2,3)] rowFar_Finite [OF assms(3,2)]
      abs_fl_swap [OF assms(1), of an bn])

lemma rowFar_same:
  assumes "roundingLaws fl" "0 \<le> c" "north A = Finite an" "north B = Finite an"
  shows "\<not> rowFar fl c A B"
  using assms(2) by (simp add: rowFar_Finite [OF assms(3,4)] fl_zero [OF assms(1)])

lemma rowFar_between:
  assumes l: "roundingLaws fl"
    and A: "north A = Finite an" and B: "north B = Finite bn" and D: "north D = Finite dn"
    and le: "an \<le> bn" "bn \<le> dn" and near: "\<not> rowFar fl c A D"
  shows "\<not> rowFar fl c A B \<and> \<not> rowFar fl c B D"
proof -
  have ad: "\<not> js_gt (js_abs (fl (dn - an))) (Finite c)"
    using near by (simp add: rowFar_Finite [OF A D] abs_fl_swap [OF l, of an dn])
  have "js_le (js_abs (fl (bn - an))) (js_abs (fl (dn - an)))"
    using le by (intro abs_fl_mono [OF l]) simp_all
  then have 1: "\<not> js_gt (js_abs (fl (bn - an))) (Finite c)"
    using ad js_le_gt_trans by blast
  have "js_le (js_abs (fl (dn - bn))) (js_abs (fl (dn - an)))"
    using le by (intro abs_fl_mono [OF l]) simp_all
  then have 2: "\<not> js_gt (js_abs (fl (dn - bn))) (Finite c)"
    using ad js_le_gt_trans by blast
  show ?thesis using 1 2
    by (simp add: rowFar_Finite [OF A B] rowFar_Finite [OF B D] abs_fl_swap [OF l, of an bn]
        abs_fl_swap [OF l, of bn dn])
qed

section \<open>A comparator by rows\<close>

lemma consistent_by_rows:
  fixes n w :: "'a \<Rightarrow> real"
  assumes nan: "\<And>a b. a \<in> S \<Longrightarrow> b \<in> S \<Longrightarrow> cmp a b \<noteq> NaN"
    and neg: "\<And>a b. a \<in> S \<Longrightarrow> b \<in> S \<Longrightarrow>
        isNegative (cmp a b) = ((far a b \<and> n b < n a) \<or> (\<not> far a b \<and> w a < w b))"
    and pos: "\<And>a b. a \<in> S \<Longrightarrow> b \<in> S \<Longrightarrow>
        isPositive (cmp a b) = ((far a b \<and> n a < n b) \<or> (\<not> far a b \<and> w b < w a))"
    and sym: "\<And>a b. a \<in> S \<Longrightarrow> b \<in> S \<Longrightarrow> far a b = far b a"
    and same: "\<And>a b. a \<in> S \<Longrightarrow> b \<in> S \<Longrightarrow> n a = n b \<Longrightarrow> \<not> far a b"
    and between: "\<And>a b d. a \<in> S \<Longrightarrow> b \<in> S \<Longrightarrow> d \<in> S \<Longrightarrow> n a \<le> n b \<Longrightarrow> n b \<le> n d \<Longrightarrow>
        \<not> far a d \<Longrightarrow> \<not> far a b \<and> \<not> far b d"
    and trans: "\<And>a b d. a \<in> S \<Longrightarrow> b \<in> S \<Longrightarrow> d \<in> S \<Longrightarrow> \<not> far a b \<Longrightarrow> \<not> far b d \<Longrightarrow> \<not> far a d"
  shows "consistentComparator cmp S"
proof -
  have eq: "(\<not> isNegative (cmp a b) \<and> \<not> isPositive (cmp a b)) = (\<not> far a b \<and> w a = w b)"
    if "a \<in> S" "b \<in> S" for a b
  proof (cases "far a b")
    case True
    then have "n a \<noteq> n b" using same [OF that] by blast
    then show ?thesis using True by (auto simp: neg [OF that] pos [OF that])
  next
    case False
    then show ?thesis by (auto simp: neg [OF that] pos [OF that])
  qed
  have lt: "far a d \<and> n d < n a \<or> \<not> far a d \<and> w a < w d"
    if m: "a \<in> S" "b \<in> S" "d \<in> S"
      and ab: "far a b \<and> n b < n a \<or> \<not> far a b \<and> w a < w b"
      and bd: "far b d \<and> n d < n b \<or> \<not> far b d \<and> w b < w d"
    for a b d
  proof (cases "far a b")
    case fab: True
    then have nab: "n b < n a" using ab by blast
    show ?thesis
    proof (cases "far b d")
      case fbd: True
      then have nbd: "n d < n b" using bd by blast
      have "far a d"
      proof (rule ccontr)
        assume "\<not> far a d"
        then have "\<not> far d a" using sym [OF m(3) m(1)] by simp
        then have "\<not> far d b" using between [OF m(3) m(2) m(1)] nab nbd by simp
        then show False using fbd sym [OF m(2) m(3)] by simp
      qed
      then show ?thesis using nab nbd by simp
    next
      case nbd: False
      have fad: "far a d"
      proof (rule ccontr)
        assume "\<not> far a d"
        moreover have "\<not> far d b" using nbd sym [OF m(3) m(2)] by simp
        ultimately have "\<not> far a b" by (rule trans [OF m(1) m(3) m(2)])
        then show False using fab by simp
      qed
      have "n d < n a"
      proof (rule ccontr)
        assume "\<not> n d < n a"
        then have "\<not> far b a" using between [OF m(2) m(1) m(3)] nab nbd by simp
        then show False using fab sym [OF m(1) m(2)] by simp
      qed
      then show ?thesis using fad by simp
    qed
  next
    case nab: False
    then have wab: "w a < w b" using ab by blast
    show ?thesis
    proof (cases "far b d")
      case fbd: True
      then have nbd: "n d < n b" using bd by blast
      have fad: "far a d"
      proof (rule ccontr)
        assume "\<not> far a d"
        moreover have "\<not> far b a" using nab sym [OF m(2) m(1)] by simp
        ultimately have "\<not> far b d" using trans [OF m(2) m(1) m(3)] by blast
        then show False using fbd by simp
      qed
      have "n d < n a"
      proof (rule ccontr)
        assume "\<not> n d < n a"
        then have "\<not> far d b" using between [OF m(1) m(3) m(2)] nab nbd by simp
        then show False using fbd sym [OF m(2) m(3)] by simp
      qed
      then show ?thesis using fad by simp
    next
      case nbd: False
      then have "w b < w d" using bd by blast
      moreover have "\<not> far a d" using nab nbd by (rule trans [OF m])
      ultimately show ?thesis using wab by simp
    qed
  qed
  have c1: "\<forall>a \<in> S. \<forall>b \<in> S. cmp a b \<noteq> NaN" using nan by blast
  have c2: "\<forall>a \<in> S. \<not> isNegative (cmp a a) \<and> \<not> isPositive (cmp a a)"
    using eq same by simp
  have c3: "\<forall>a \<in> S. \<forall>b \<in> S.
         \<not> isNegative (cmp a b) \<and> \<not> isPositive (cmp a b) \<longrightarrow>
         \<not> isNegative (cmp b a) \<and> \<not> isPositive (cmp b a)"
  proof (intro ballI impI)
    fix a b assume m: "a \<in> S" "b \<in> S"
      and "\<not> isNegative (cmp a b) \<and> \<not> isPositive (cmp a b)"
    then have "\<not> far a b \<and> w a = w b" using eq [OF m] by simp
    then have "\<not> far b a \<and> w b = w a" using sym [OF m] by simp
    then show "\<not> isNegative (cmp b a) \<and> \<not> isPositive (cmp b a)"
      using eq [OF m(2) m(1)] by simp
  qed
  have c4: "\<forall>a \<in> S. \<forall>b \<in> S. \<forall>d \<in> S.
         \<not> isNegative (cmp a b) \<and> \<not> isPositive (cmp a b) \<and>
         \<not> isNegative (cmp b d) \<and> \<not> isPositive (cmp b d) \<longrightarrow>
         \<not> isNegative (cmp a d) \<and> \<not> isPositive (cmp a d)"
  proof (intro ballI impI)
    fix a b d assume m: "a \<in> S" "b \<in> S" "d \<in> S"
      and h: "\<not> isNegative (cmp a b) \<and> \<not> isPositive (cmp a b) \<and>
         \<not> isNegative (cmp b d) \<and> \<not> isPositive (cmp b d)"
    have 1: "\<not> far a b \<and> w a = w b" using h eq [OF m(1) m(2)] by simp
    have 2: "\<not> far b d \<and> w b = w d" using h eq [OF m(2) m(3)] by simp
    have "\<not> far a d" using 1 2 trans [OF m] by blast
    then have "\<not> far a d \<and> w a = w d" using 1 2 by simp
    then show "\<not> isNegative (cmp a d) \<and> \<not> isPositive (cmp a d)"
      using eq [OF m(1) m(3)] by simp
  qed
  have c5: "\<forall>a \<in> S. \<forall>b \<in> S. \<forall>d \<in> S.
         isNegative (cmp a b) \<and> isNegative (cmp b d) \<longrightarrow> isNegative (cmp a d)"
  proof (intro ballI impI)
    fix a b d assume m: "a \<in> S" "b \<in> S" "d \<in> S"
      and h: "isNegative (cmp a b) \<and> isNegative (cmp b d)"
    have "far a d \<and> n d < n a \<or> \<not> far a d \<and> w a < w d"
      using h by (intro lt [OF m]) (simp_all add: neg [OF m(1) m(2)] neg [OF m(2) m(3)])
    then show "isNegative (cmp a d)" by (simp add: neg [OF m(1) m(3)])
  qed
  have c6: "\<forall>a \<in> S. \<forall>b \<in> S. \<forall>d \<in> S.
         isPositive (cmp a b) \<and> isPositive (cmp b d) \<longrightarrow> isPositive (cmp a d)"
  proof (intro ballI impI)
    fix a b d assume m: "a \<in> S" "b \<in> S" "d \<in> S"
      and h: "isPositive (cmp a b) \<and> isPositive (cmp b d)"
    have ba: "far b a \<and> n a < n b \<or> \<not> far b a \<and> w b < w a"
      using h by (simp add: pos [OF m(1) m(2)] sym [OF m(2) m(1)])
    have db: "far d b \<and> n b < n d \<or> \<not> far d b \<and> w d < w b"
      using h by (simp add: pos [OF m(2) m(3)] sym [OF m(3) m(2)])
    have "far d a \<and> n a < n d \<or> \<not> far d a \<and> w d < w a"
      using lt [OF m(3) m(2) m(1) db ba] .
    then show "isPositive (cmp a d)" by (simp add: pos [OF m(1) m(3)] sym [OF m(1) m(3)])
  qed
  show ?thesis unfolding consistentComparator_def using c1 c2 c3 c4 c5 c6 by (intro conjI)
qed

section \<open>The zones before the sort\<close>

lemma clusterPOIs_wellFormed: "wellFormedClusters pois (clusterPOIs pois config)"
proof -
  have "set (concat (clusterPOIs pois config)) = set [0 ..< length pois]"
    using clusterPOIs_partition [of pois config] by (metis set_mset_mset)
  then have "\<forall>c \<in> set (clusterPOIs pois config). \<forall>i \<in> set c. i < length pois"
    by auto
  then show ?thesis using clusterPOIs_sizes [of pois config]
    by (simp add: wellFormedClusters_def)
qed

lemma planZonesWith_nonempty:
  "pois \<noteq> [] \<Longrightarrow>
   planZonesWith srt cmp calculateCenter calculateZoom pois config =
     map (\<lambda>(index, zone). zone\<lparr>zone_id := zoneName index\<rparr>)
       (enumerate 0 (srt cmp (builtZones calculateCenter calculateZoom pois config)))"
  by (simp add: planZonesWith_def builtZones_def Let_def)

lemma bounds_builtZones:
  "map bounds (builtZones calculateCenter calculateZoom pois config) =
   map (\<lambda>c. calculateBounds (map (\<lambda>i. pois ! i) c)) (clusterPOIs pois (mergeConfig config))"
  unfolding builtZones_def by (rule bounds_buildZones)

lemma engineBounds_calculateBounds:
  assumes "ps \<noteq> []"
    and "\<forall>p \<in> set ps. representable fl (lat p) \<and> representable fl (lng p)"
  shows "engineBounds fl (calculateBounds ps)"
proof -
  have "Max (set (map lat ps)) \<in> set (map lat ps)" using assms(1) by (intro Max_in) simp_all
  then have n: "representable fl (Max (set (map lat ps)))" using assms(2) by auto
  have "Min (set (map lng ps)) \<in> set (map lng ps)" using assms(1) by (intro Min_in) simp_all
  then have w: "representable fl (Min (set (map lng ps)))" using assms(2) by auto
  show ?thesis unfolding engineBounds_def calculateBounds_nonempty [OF assms(1)]
    using n w by blast
qed

lemma engineBounds_builtZones:
  assumes rep: "\<forall>p \<in> set pois. representable fl (lat p) \<and> representable fl (lng p)"
    and z: "z \<in> set (builtZones calculateCenter calculateZoom pois config)"
  shows "engineBounds fl (bounds z)"
proof -
  have "bounds z \<in> set (map bounds (builtZones calculateCenter calculateZoom pois config))"
    using z by simp
  then obtain c where c: "c \<in> set (clusterPOIs pois (mergeConfig config))"
    and b: "bounds z = calculateBounds (map (\<lambda>i. pois ! i) c)"
    unfolding bounds_builtZones by auto
  have wf: "c \<noteq> []" "\<forall>i \<in> set c. i < length pois"
    using clusterPOIs_wellFormed [of pois "mergeConfig config"] c
    by (simp_all add: wellFormedClusters_def)
  have "\<forall>p \<in> set (map (\<lambda>i. pois ! i) c). p \<in> set pois" using wf(2) by auto
  then have "\<forall>p \<in> set (map (\<lambda>i. pois ! i) c). representable fl (lat p) \<and> representable fl (lng p)"
    using rep by blast
  moreover have "map (\<lambda>i. pois ! i) c \<noteq> []" using wf(1) by simp
  ultimately show ?thesis unfolding b by (intro engineBounds_calculateBounds)
qed

section \<open>The comparator of the zones is consistent on separate rows\<close>

lemma engineBounds_fields:
  assumes "engineBounds fl B"
  shows "north B = Finite (realOf (north B))" "west B = Finite (realOf (west B))"
    "representable fl (realOf (north B))" "representable fl (realOf (west B))"
  using assms by (auto simp: engineBounds_def)

lemma zoneCompareWith_Finite:
  assumes "north (bounds a) = Finite an" "north (bounds b) = Finite bn"
    "west (bounds a) = Finite aw" "west (bounds b) = Finite bw"
  shows "zoneCompareWith fl (Finite c) a b =
     (if rowFar fl c (bounds a) (bounds b) then fl (bn - an) else fl (aw - bw))"
  by (simp add: zoneCompareWith_def rowFar_def Let_def assms)

lemma zoneCompareWith_negative:
  assumes l: "roundingLaws fl" and a: "engineBounds fl (bounds a)" and b: "engineBounds fl (bounds b)"
  shows "isNegative (zoneCompareWith fl (Finite c) a b) =
     ((rowFar fl c (bounds a) (bounds b) \<and> realOf (north (bounds b)) < realOf (north (bounds a))) \<or>
      (\<not> rowFar fl c (bounds a) (bounds b) \<and> realOf (west (bounds a)) < realOf (west (bounds b))))"
  unfolding zoneCompareWith_Finite [OF engineBounds_fields(1) [OF a] engineBounds_fields(1) [OF b]
      engineBounds_fields(2) [OF a] engineBounds_fields(2) [OF b]]
  using fl_diff_negative [OF l engineBounds_fields(3) [OF b] engineBounds_fields(3) [OF a]]
    fl_diff_negative [OF l engineBounds_fields(4) [OF a] engineBounds_fields(4) [OF b]]
  by simp

lemma zoneCompareWith_positive:
  assumes l: "roundingLaws fl" and a: "engineBounds fl (bounds a)" and b: "engineBounds fl (bounds b)"
  shows "isPositive (zoneCompareWith fl (Finite c) a b) =
     ((rowFar fl c (bounds a) (bounds b) \<and> realOf (north (bounds a)) < realOf (north (bounds b))) \<or>
      (\<not> rowFar fl c (bounds a) (bounds b) \<and> realOf (west (bounds b)) < realOf (west (bounds a))))"
  unfolding zoneCompareWith_Finite [OF engineBounds_fields(1) [OF a] engineBounds_fields(1) [OF b]
      engineBounds_fields(2) [OF a] engineBounds_fields(2) [OF b]]
  using fl_diff_positive [OF l engineBounds_fields(3) [OF b] engineBounds_fields(3) [OF a]]
    fl_diff_positive [OF l engineBounds_fields(4) [OF a] engineBounds_fields(4) [OF b]]
  by simp

lemma zoneCompareWith_not_NaN:
  assumes l: "roundingLaws fl" and a: "engineBounds fl (bounds a)" and b: "engineBounds fl (bounds b)"
  shows "zoneCompareWith fl (Finite c) a b \<noteq> NaN"
  unfolding zoneCompareWith_Finite [OF engineBounds_fields(1) [OF a] engineBounds_fields(1) [OF b]
      engineBounds_fields(2) [OF a] engineBounds_fields(2) [OF b]]
  by (simp add: fl_not_NaN [OF l])

lemma zoneCompareWith_consistent:
  assumes l: "roundingLaws fl" and c: "0 \<le> c"
    and eb: "\<forall>z \<in> set zs. engineBounds fl (bounds z)"
    and rows: "rowsTransitive fl c zs"
  shows "consistentComparator (zoneCompareWith fl (Finite c)) (set zs)"
proof (rule consistent_by_rows [where far = "\<lambda>a b. rowFar fl c (bounds a) (bounds b)"
      and n = "\<lambda>z. realOf (north (bounds z))" and w = "\<lambda>z. realOf (west (bounds z))"])
  fix a b assume m: "a \<in> set zs" "b \<in> set zs"
  have a: "engineBounds fl (bounds a)" and b: "engineBounds fl (bounds b)" using eb m by simp_all
  show "zoneCompareWith fl (Finite c) a b \<noteq> NaN" by (rule zoneCompareWith_not_NaN [OF l a b])
  show "isNegative (zoneCompareWith fl (Finite c) a b) =
     ((rowFar fl c (bounds a) (bounds b) \<and> realOf (north (bounds b)) < realOf (north (bounds a))) \<or>
      (\<not> rowFar fl c (bounds a) (bounds b) \<and> realOf (west (bounds a)) < realOf (west (bounds b))))"
    by (rule zoneCompareWith_negative [OF l a b])
  show "isPositive (zoneCompareWith fl (Finite c) a b) =
     ((rowFar fl c (bounds a) (bounds b) \<and> realOf (north (bounds a)) < realOf (north (bounds b))) \<or>
      (\<not> rowFar fl c (bounds a) (bounds b) \<and> realOf (west (bounds b)) < realOf (west (bounds a))))"
    by (rule zoneCompareWith_positive [OF l a b])
  show "rowFar fl c (bounds a) (bounds b) = rowFar fl c (bounds b) (bounds a)"
    by (rule rowFar_sym [OF l engineBounds_fields(1) [OF a] engineBounds_fields(1) [OF b]])
  show "\<not> rowFar fl c (bounds a) (bounds b)"
    if "realOf (north (bounds a)) = realOf (north (bounds b))"
    using rowFar_same [OF l c engineBounds_fields(1) [OF a]] engineBounds_fields(1) [OF b] that
    by simp
next
  fix a b d assume m: "a \<in> set zs" "b \<in> set zs" "d \<in> set zs"
  have a: "engineBounds fl (bounds a)" and b: "engineBounds fl (bounds b)"
    and d: "engineBounds fl (bounds d)" using eb m by simp_all
  show "\<not> rowFar fl c (bounds a) (bounds b) \<and> \<not> rowFar fl c (bounds b) (bounds d)"
    if "realOf (north (bounds a)) \<le> realOf (north (bounds b))"
      "realOf (north (bounds b)) \<le> realOf (north (bounds d))"
      "\<not> rowFar fl c (bounds a) (bounds d)"
    using that
    by (intro rowFar_between [OF l engineBounds_fields(1) [OF a] engineBounds_fields(1) [OF b]
          engineBounds_fields(1) [OF d]])
  show "\<not> rowFar fl c (bounds a) (bounds d)"
    if "\<not> rowFar fl c (bounds a) (bounds b)" "\<not> rowFar fl c (bounds b) (bounds d)"
    using rows m that unfolding rowsTransitive_def by blast
qed

lemma readingOrderWith_sorted:
  assumes l: "roundingLaws fl" and c: "0 \<le> c"
    and a: "engineBounds fl (bounds a)" and b: "engineBounds fl (bounds b)"
    and ord: "\<not> isNegative (zoneCompareWith fl (Finite c) b a)"
  shows "readingOrderWith fl c (bounds a) (bounds b)"
proof -
  note na = engineBounds_fields(1) [OF a] and nb = engineBounds_fields(1) [OF b]
  note wa = engineBounds_fields(2) [OF a] and wb = engineBounds_fields(2) [OF b]
  have sym: "rowFar fl c (bounds b) (bounds a) = rowFar fl c (bounds a) (bounds b)"
    by (rule rowFar_sym [OF l nb na])
  show ?thesis
  proof (cases "rowFar fl c (bounds a) (bounds b)")
    case True
    then have "\<not> realOf (north (bounds a)) < realOf (north (bounds b))"
      using ord by (simp add: zoneCompareWith_negative [OF l b a] sym)
    moreover have "realOf (north (bounds a)) \<noteq> realOf (north (bounds b))"
      using True rowFar_same [OF l c na] nb by auto
    ultimately have "realOf (north (bounds b)) < realOf (north (bounds a))" by simp
    then have "js_gt (north (bounds a)) (north (bounds b))"
      using na nb by (metis js_gt_simps(1))
    then show ?thesis using True by (simp add: readingOrderWith_def)
  next
    case False
    then have "realOf (west (bounds a)) \<le> realOf (west (bounds b))"
      using ord by (simp add: zoneCompareWith_negative [OF l b a] sym)
    then have "js_le (Finite (realOf (west (bounds a)))) (Finite (realOf (west (bounds b))))"
      by (auto simp: js_le_def)
    then have "js_le (west (bounds a)) (west (bounds b))" using wa wb by simp
    then show ?thesis using False by (simp add: readingOrderWith_def)
  qed
qed

lemma sorted_wrt_relabel:
  "sorted_wrt (\<lambda>A B. R (bounds A) (bounds B))
     (map (\<lambda>(index, zone). zone\<lparr>zone_id := zoneName index\<rparr>) (enumerate n zs)) =
   sorted_wrt (\<lambda>A B. R (bounds A) (bounds B)) zs"
proof -
  have "sorted_wrt (\<lambda>A B. R (bounds A) (bounds B))
     (map (\<lambda>(index, zone). zone\<lparr>zone_id := zoneName index\<rparr>) (enumerate n zs)) =
     sorted_wrt R (map bounds (map (\<lambda>(index, zone). zone\<lparr>zone_id := zoneName index\<rparr>) (enumerate n zs)))"
    by (simp only: sorted_wrt_map)
  also have "\<dots> = sorted_wrt R (map bounds zs)" by (simp only: bounds_relabel)
  also have "\<dots> = sorted_wrt (\<lambda>A B. R (bounds A) (bounds B)) zs" by (simp only: sorted_wrt_map)
  finally show ?thesis .
qed

section \<open>Three zones of one point each\<close>

lemma zoneCompare_exact: "zoneCompare = zoneCompareWith Finite (Finite 0.01)"
  by (simp add: fun_eq_iff zoneCompare_def)

lemma readingOrderWith_exact:
  assumes "north A = Finite an" "north B = Finite bn"
  shows "readingOrderWith Finite 0.01 A B = readingOrder A B"
proof -
  have "\<bar>an - bn\<bar> \<le> 1 / 100 \<or> (bn + 1 / 100 < an \<longleftrightarrow> bn < an)" by (auto simp: abs_if)
  moreover have "bn + 1 / 100 < an \<longrightarrow> 1 / 100 < \<bar>an - bn\<bar>" by (auto simp: abs_if)
  ultimately show ?thesis
    by (auto simp: readingOrderWith_def readingOrder_def rowFar_def assms js_le_def)
qed

lemma clusterPOIs_rowPoints: "clusterPOIs rowPoints (mergeConfig rowConfig) = [[2], [1], [0]]"
proof -
  have c: "minPoisPerZone (mergeConfig rowConfig) = 1" "maxPoisPerZone (mergeConfig rowConfig) = 1"
    by (simp_all add: mergeConfig_def rowConfig_def)
  have "[0 ..< length rowPoints] = [0, 1, 2]" by (simp add: rowPoints_def upt_rec)
  then have s: "js_sort (\<lambda>a b. Finite (lat (rowPoints ! b) - lat (rowPoints ! a))) [0 ..< length rowPoints]
      = [2, 1, 0]"
    by (simp add: js_sort_def rowPoints_def)
  have g: "greedyClusters rowPoints (mergeConfig rowConfig) = [[2], [1], [0]]"
    unfolding greedyClusters_def s Let_def
    by (simp add: seedLoop_step seedCluster_def c del: seedLoop.simps(2))
  have "mergeScan rowPoints (mergeConfig rowConfig) [[2], [1], [0]] 0 = None"
    by (rule mergeScan_all_large) (simp add: c)
  then have "mergeWhile rowPoints (mergeConfig rowConfig) [[2], [1], [0]] = [[2], [1], [0]]"
    by (rule mergeWhile_None)
  moreover have "length rowPoints = 3" by (simp add: rowPoints_def)
  ultimately show ?thesis by (simp add: clusterPOIs_greedy g mergeSmallClusters_def)
qed

lemma clusterPOIs_gridPoints: "clusterPOIs gridPoints (mergeConfig rowConfig) = [[2], [0], [1]]"
proof -
  have c: "minPoisPerZone (mergeConfig rowConfig) = 1" "maxPoisPerZone (mergeConfig rowConfig) = 1"
    by (simp_all add: mergeConfig_def rowConfig_def)
  have "[0 ..< length gridPoints] = [0, 1, 2]" by (simp add: gridPoints_def upt_rec)
  then have s: "js_sort (\<lambda>a b. Finite (lat (gridPoints ! b) - lat (gridPoints ! a))) [0 ..< length gridPoints]
      = [2, 0, 1]"
    by (simp add: js_sort_def gridPoints_def)
  have g: "greedyClusters gridPoints (mergeConfig rowConfig) = [[2], [0], [1]]"
    unfolding greedyClusters_def s Let_def
    by (simp add: seedLoop_step seedCluster_def c del: seedLoop.simps(2))
  have "mergeScan gridPoints (mergeConfig rowConfig) [[2], [0], [1]] 0 = None"
    by (rule mergeScan_all_large) (simp add: c)
  then have "mergeWhile gridPoints (mergeConfig rowConfig) [[2], [0], [1]] = [[2], [0], [1]]"
    by (rule mergeWhile_None)
  moreover have "length gridPoints = 3" by (simp add: gridPoints_def)
  ultimately show ?thesis by (simp add: clusterPOIs_greedy g mergeSmallClusters_def)
qed

lemma bounds_builtZones_rowPoints:
  "map bounds (builtZones calculateCenter calculateZoom rowPoints rowConfig) =
     [\<lparr>north = Finite (1 / 64), south = Finite (1 / 64), east = Finite 2, west = Finite 2\<rparr>,
      \<lparr>north = Finite (1 / 128), south = Finite (1 / 128), east = Finite 1, west = Finite 1\<rparr>,
      \<lparr>north = Finite 0, south = Finite 0, east = Finite 0, west = Finite 0\<rparr>]"
  unfolding bounds_builtZones clusterPOIs_rowPoints
  by (simp add: rowPoints_def calculateBounds_def boundsStep_def initialBounds_def)

lemma bounds_builtZones_gridPoints:
  "map bounds (builtZones calculateCenter calculateZoom gridPoints rowConfig) =
     [\<lparr>north = Finite 1, south = Finite 1, east = Finite 0, west = Finite 0\<rparr>,
      \<lparr>north = Finite (1 / 256), south = Finite (1 / 256), east = Finite 1, west = Finite 1\<rparr>,
      \<lparr>north = Finite 0, south = Finite 0, east = Finite 0, west = Finite 0\<rparr>]"
  unfolding bounds_builtZones clusterPOIs_gridPoints
  by (simp add: gridPoints_def calculateBounds_def boundsStep_def initialBounds_def)

lemma rowsTransitive_bounds:
  "rowsTransitive fl c zs =
     (\<forall>A \<in> set (map bounds zs). \<forall>B \<in> set (map bounds zs). \<forall>D \<in> set (map bounds zs).
        \<not> rowFar fl c A B \<and> \<not> rowFar fl c B D \<longrightarrow> \<not> rowFar fl c A D)"
  by (simp add: rowsTransitive_def)

lemma rowsTransitive_gridPoints:
  "rowsTransitive Finite 0.01 (builtZones calculateCenter calculateZoom gridPoints rowConfig)"
  unfolding rowsTransitive_bounds bounds_builtZones_gridPoints
  by (simp add: rowFar_def)

lemma bounds_planZones_gridPoints:
  "map bounds (planZones calculateCenter calculateZoom gridPoints rowConfig) =
     [\<lparr>north = Finite 1, south = Finite 1, east = Finite 0, west = Finite 0\<rparr>,
      \<lparr>north = Finite 0, south = Finite 0, east = Finite 0, west = Finite 0\<rparr>,
      \<lparr>north = Finite (1 / 256), south = Finite (1 / 256), east = Finite 1, west = Finite 1\<rparr>]"
proof -
  have ne: "gridPoints \<noteq> []" by (simp add: gridPoints_def)
  show ?thesis
    unfolding bounds_planZones [OF ne] clusterPOIs_gridPoints
    by (simp add: gridPoints_def calculateBounds_def boundsStep_def initialBounds_def js_sort_def
        boundsCompare_def)
qed

section \<open>Three zones that no order puts in rows\<close>

lemma no_cyclic_order:
  assumes "A \<in> set bs" "B \<in> set bs" "C \<in> set bs"
    and "\<not> R B A" "\<not> R C B" "\<not> R A C"
    and "A \<noteq> B" "B \<noteq> C" "A \<noteq> C"
  shows "\<not> sorted_wrt R bs"
proof
  assume sorted: "sorted_wrt R bs"
  from assms(1,2,3) obtain i j k where
    i: "i < length bs" "bs ! i = A" and j: "j < length bs" "bs ! j = B" and
    k: "k < length bs" "bs ! k = C"
    by (auto simp: in_set_conv_nth)
  have ord: "R (bs ! x) (bs ! y)" if "x < y" "y < length bs" for x y
    using sorted that by (simp add: sorted_wrt_iff_nth_less)
  have "i < j" using ord [of j i] i j assms(4,7) by (cases i j rule: linorder_cases) auto
  moreover have "j < k" using ord [of k j] j k assms(5,8) by (cases j k rule: linorder_cases) auto
  moreover have "k < i" using ord [of i k] i k assms(6,9) by (cases k i rule: linorder_cases) auto
  ultimately show False by simp
qed

lemma rowPoints_no_order:
  assumes perm: "\<forall>zs. mset (srt cmp zs) = mset zs"
    and cyc: "\<not> R \<lparr>north = Finite (1 / 128), south = Finite (1 / 128), east = Finite 1, west = Finite 1\<rparr>
                  \<lparr>north = Finite 0, south = Finite 0, east = Finite 0, west = Finite 0\<rparr>"
      "\<not> R \<lparr>north = Finite (1 / 64), south = Finite (1 / 64), east = Finite 2, west = Finite 2\<rparr>
            \<lparr>north = Finite (1 / 128), south = Finite (1 / 128), east = Finite 1, west = Finite 1\<rparr>"
      "\<not> R \<lparr>north = Finite 0, south = Finite 0, east = Finite 0, west = Finite 0\<rparr>
            \<lparr>north = Finite (1 / 64), south = Finite (1 / 64), east = Finite 2, west = Finite 2\<rparr>"
  shows "\<not> sorted_wrt (\<lambda>A B. R (bounds A) (bounds B))
           (planZonesWith srt cmp calculateCenter calculateZoom rowPoints rowConfig)"
proof -
  let ?zs = "builtZones calculateCenter calculateZoom rowPoints rowConfig"
  have ne: "rowPoints \<noteq> []" by (simp add: rowPoints_def)
  have "mset (srt cmp ?zs) = mset ?zs" using perm by blast
  then have "mset (map bounds (srt cmp ?zs)) = mset (map bounds ?zs)" by (metis mset_map)
  then have "set (map bounds (srt cmp ?zs)) = set (map bounds ?zs)" by (rule mset_eq_setD)
  then have s: "set (map bounds (srt cmp ?zs)) =
     {\<lparr>north = Finite (1 / 64), south = Finite (1 / 64), east = Finite 2, west = Finite 2\<rparr>,
      \<lparr>north = Finite (1 / 128), south = Finite (1 / 128), east = Finite 1, west = Finite 1\<rparr>,
      \<lparr>north = Finite 0, south = Finite 0, east = Finite 0, west = Finite 0\<rparr>}"
    by (simp only: bounds_builtZones_rowPoints) simp
  have inA: "\<lparr>north = Finite 0, south = Finite 0, east = Finite 0, west = Finite 0\<rparr>
      \<in> set (map bounds (srt cmp ?zs))"
    and inB: "\<lparr>north = Finite (1 / 128), south = Finite (1 / 128), east = Finite 1, west = Finite 1\<rparr>
      \<in> set (map bounds (srt cmp ?zs))"
    and inC: "\<lparr>north = Finite (1 / 64), south = Finite (1 / 64), east = Finite 2, west = Finite 2\<rparr>
      \<in> set (map bounds (srt cmp ?zs))"
    unfolding s by simp_all
  have "\<not> sorted_wrt R (map bounds (srt cmp ?zs))"
    by (rule no_cyclic_order [OF inA inB inC cyc]) simp_all
  moreover have "sorted_wrt (\<lambda>A B. R (bounds A) (bounds B)) (srt cmp ?zs) =
        sorted_wrt R (map bounds (srt cmp ?zs))"
    by (simp only: sorted_wrt_map)
  moreover have "sorted_wrt (\<lambda>A B. R (bounds A) (bounds B))
           (planZonesWith srt cmp calculateCenter calculateZoom rowPoints rowConfig) =
        sorted_wrt (\<lambda>A B. R (bounds A) (bounds B)) (srt cmp ?zs)"
    unfolding planZonesWith_nonempty [OF ne] by (rule sorted_wrt_relabel)
  ultimately show ?thesis by simp
qed

lemma rowPoints_exact_cycle:
  "\<not> readingOrder \<lparr>north = Finite (1 / 128), south = Finite (1 / 128), east = Finite 1, west = Finite 1\<rparr>
                  \<lparr>north = Finite 0, south = Finite 0, east = Finite 0, west = Finite 0\<rparr>"
  "\<not> readingOrder \<lparr>north = Finite (1 / 64), south = Finite (1 / 64), east = Finite 2, west = Finite 2\<rparr>
            \<lparr>north = Finite (1 / 128), south = Finite (1 / 128), east = Finite 1, west = Finite 1\<rparr>"
  "\<not> readingOrder \<lparr>north = Finite 0, south = Finite 0, east = Finite 0, west = Finite 0\<rparr>
            \<lparr>north = Finite (1 / 64), south = Finite (1 / 64), east = Finite 2, west = Finite 2\<rparr>"
  by (simp_all add: readingOrder_def js_le_def)

lemma rowPoints_rounded_cycle:
  assumes l: "roundingLaws fl" and r: "representable fl (1 / 128)" "representable fl (1 / 64)"
    and c: "1 / 128 \<le> c" "c < 1 / 64"
  shows
  "\<not> readingOrderWith fl c \<lparr>north = Finite (1 / 128), south = Finite (1 / 128), east = Finite 1, west = Finite 1\<rparr>
                  \<lparr>north = Finite 0, south = Finite 0, east = Finite 0, west = Finite 0\<rparr>"
  "\<not> readingOrderWith fl c \<lparr>north = Finite (1 / 64), south = Finite (1 / 64), east = Finite 2, west = Finite 2\<rparr>
            \<lparr>north = Finite (1 / 128), south = Finite (1 / 128), east = Finite 1, west = Finite 1\<rparr>"
  "\<not> readingOrderWith fl c \<lparr>north = Finite 0, south = Finite 0, east = Finite 0, west = Finite 0\<rparr>
            \<lparr>north = Finite (1 / 64), south = Finite (1 / 64), east = Finite 2, west = Finite 2\<rparr>"
proof -
  have f1: "fl (1 / 128) = Finite (1 / 128)" and f2: "fl (1 / 64) = Finite (1 / 64)"
    using r by (simp_all add: representable_def)
  have d1: "(1::real) / 128 - 0 = 1 / 128" and d2: "(1::real) / 64 - 1 / 128 = 1 / 128" by simp_all
  show "\<not> readingOrderWith fl c \<lparr>north = Finite (1 / 128), south = Finite (1 / 128), east = Finite 1, west = Finite 1\<rparr>
                  \<lparr>north = Finite 0, south = Finite 0, east = Finite 0, west = Finite 0\<rparr>"
    using c by (simp add: readingOrderWith_def rowFar_def f1 js_le_def)
  show "\<not> readingOrderWith fl c \<lparr>north = Finite (1 / 64), south = Finite (1 / 64), east = Finite 2, west = Finite 2\<rparr>
            \<lparr>north = Finite (1 / 128), south = Finite (1 / 128), east = Finite 1, west = Finite 1\<rparr>"
    using c by (simp add: readingOrderWith_def rowFar_def d2 f1 js_le_def)
  show "\<not> readingOrderWith fl c \<lparr>north = Finite 0, south = Finite 0, east = Finite 0, west = Finite 0\<rparr>
            \<lparr>north = Finite (1 / 64), south = Finite (1 / 64), east = Finite 2, west = Finite 2\<rparr>"
    using c by (simp add: readingOrderWith_def rowFar_def fl_minus [OF l] f2)
qed

section \<open>The zones partition the points\<close>

text \<open>
  Claim C1. For every list of points and every configuration, the index lists of the zones
  that \<open>planZones\<close> returns hold, taken together, every index \<open>0, \<dots>, n - 1\<close> of
  the input exactly once: as a multiset, their concatenation is the multiset of these
  indices, so the union is the whole index set and no index is in two zones or twice in
  one. This holds in particular for the configurations with positive sizes and radius.
\<close>

theorem planZones_partition:
  "mset (concat (map poiIndices (planZones calculateCenter calculateZoom pois config))) =
   mset [0 ..< length pois]"
proof (cases "length pois = 0")
  case True
  then show ?thesis by (simp add: planZones_def planZonesWith_def)
next
  case False
  then have "mset (map poiIndices (planZones calculateCenter calculateZoom pois config)) =
        mset (clusterPOIs pois (mergeConfig config))"
    by (intro poiIndices_planZones) auto
  then have "mset (concat (map poiIndices (planZones calculateCenter calculateZoom pois config))) =
        mset (concat (clusterPOIs pois (mergeConfig config)))"
    by (rule mset_concat_cong)
  then show ?thesis by (simp add: clusterPOIs_partition)
qed

section \<open>The size of a zone\<close>

text \<open>
  Claim C2. When \<open>maxPoisPerZone\<close> is positive (as it is when
  \<open>0 < minPoisPerZone \<le> maxPoisPerZone\<close>), every cluster of the greedy stage, every
  cluster after the merge stage and every zone that \<open>planZones\<close> returns has at least
  one and at most \<open>maxPoisPerZone\<close> indices. \<open>minPoisPerZone\<close> is not guaranteed: the
  zone of a single point under the default configuration has one index, fewer than the
  minimum of three.
\<close>

theorem planZones_zone_sizes:
  "(0 < maxPoisPerZone (mergeConfig config) \<longrightarrow>
      (\<forall>c \<in> set (greedyClusters pois (mergeConfig config)).
         1 \<le> length c \<and> length c \<le> maxPoisPerZone (mergeConfig config)) \<and>
      (\<forall>c \<in> set (mergeSmallClusters (greedyClusters pois (mergeConfig config)) pois
                     (mergeConfig config)).
         1 \<le> length c \<and> length c \<le> maxPoisPerZone (mergeConfig config)) \<and>
      (\<forall>z \<in> set (planZones calculateCenter calculateZoom pois config).
         1 \<le> length (poiIndices z) \<and> length (poiIndices z) \<le> maxPoisPerZone (mergeConfig config))) \<and>
   (\<exists>z \<in> set (planZones calculateCenter calculateZoom [examplePoint] None).
      length (poiIndices z) < minPoisPerZone (mergeConfig None))"
proof -
  let ?c = "mergeConfig config"
  have small: "\<exists>z \<in> set (planZones calculateCenter calculateZoom [examplePoint] None).
      length (poiIndices z) < minPoisPerZone (mergeConfig None)"
    by (simp add: planZones_single mergeConfig_def DEFAULT_CONFIG_def)
  have sizes: "\<forall>z \<in> set (planZones calculateCenter calculateZoom pois config).
         1 \<le> length (poiIndices z) \<and> length (poiIndices z) \<le> maxPoisPerZone ?c"
    if pos: "0 < maxPoisPerZone ?c"
  proof (cases "pois = []")
    case True
    then show ?thesis by (simp add: planZones_def planZonesWith_def)
  next
    case False
    show ?thesis
    proof
      fix z assume "z \<in> set (planZones calculateCenter calculateZoom pois config)"
      then have "poiIndices z \<in> set (map poiIndices (planZones calculateCenter calculateZoom pois config))"
        by simp
      then have "poiIndices z \<in># mset (map poiIndices (planZones calculateCenter calculateZoom pois config))"
        by (simp only: set_mset_mset)
      then have "poiIndices z \<in># mset (clusterPOIs pois ?c)"
        by (simp only: poiIndices_planZones [OF False])
      then have "poiIndices z \<in> set (clusterPOIs pois ?c)" by simp
      then show "1 \<le> length (poiIndices z) \<and> length (poiIndices z) \<le> maxPoisPerZone ?c"
        using clusterPOIs_sizes [of pois ?c] pos by (auto simp: Suc_le_eq)
    qed
  qed
  have g: "\<forall>c \<in> set (greedyClusters pois ?c). 1 \<le> length c \<and> length c \<le> maxPoisPerZone ?c"
    if pos: "0 < maxPoisPerZone ?c"
    using greedyClusters_sizes [of pois ?c] pos by (auto simp: Suc_le_eq)
  have m: "\<forall>c \<in> set (mergeSmallClusters (greedyClusters pois ?c) pois ?c).
             1 \<le> length c \<and> length c \<le> maxPoisPerZone ?c"
    if pos: "0 < maxPoisPerZone ?c"
    using mergeSmallClusters_sizes [OF greedyClusters_sizes, of pois ?c pois] pos
    by (auto simp: Suc_le_eq)
  show ?thesis using small sizes g m by blast
qed

theorem planZones_zone_sizes_witness:
  "0 < maxPoisPerZone (mergeConfig None) \<and>
   map (\<lambda>z. length (poiIndices z)) (planZones midpointCenter constantZoom [examplePoint] None) = [1] \<and>
   1 \<le> maxPoisPerZone (mergeConfig None)"
  using planZones_zone_sizes [of None "[examplePoint]" midpointCenter constantZoom]
  by (simp add: planZones_single mergeConfig_def DEFAULT_CONFIG_def)

section \<open>The order of the zones\<close>




section \<open>The merge partner\<close>



section \<open>Termination of the merge loop\<close>

text \<open>
  Claim C7. The loop that merges small clusters terminates: a pass that merges makes the
  array of clusters shorter, a pass that merges nothing ends the loop at once, and so the
  loop, run with a bound of one more pass than there are clusters, ends within the bound,
  with the result of \<open>mergeWhile\<close>; \<open>mergeSmallClusters\<close> returns for every input.
\<close>

theorem mergeSmallClusters_terminates:
  "(mergeScan pois config w 0 = Some merged \<longrightarrow> length merged < length w) \<and>
   (mergeScan pois config w 0 = None \<longrightarrow> mergeWhile pois config w = w) \<and>
   mergeWhileFuel (Suc (length w)) pois config w = Some (mergeWhile pois config w) \<and>
   (\<exists>r. mergeWhileFuel (Suc (length clusters)) pois config clusters = Some r \<and>
        mergeSmallClusters clusters pois config = (if length clusters \<le> 1 then clusters else r))"
proof (intro conjI impI)
  assume "mergeScan pois config w 0 = Some merged"
  from mergeScan_length [OF this] show "length merged < length w" by simp
next
  assume "mergeScan pois config w 0 = None"
  then show "mergeWhile pois config w = w" by (rule mergeWhile_None)
next
  show "mergeWhileFuel (Suc (length w)) pois config w = Some (mergeWhile pois config w)"
    by (rule mergeWhileFuel_enough) simp
next
  have "mergeWhileFuel (Suc (length clusters)) pois config clusters =
      Some (mergeWhile pois config clusters)"
    by (rule mergeWhileFuel_enough) simp
  moreover have "mergeSmallClusters clusters pois config =
      (if length clusters \<le> 1 then clusters else mergeWhile pois config clusters)"
    by (simp add: mergeSmallClusters_def)
  ultimately show "\<exists>r. mergeWhileFuel (Suc (length clusters)) pois config clusters = Some r \<and>
        mergeSmallClusters clusters pois config = (if length clusters \<le> 1 then clusters else r)"
    by blast
qed

theorem mergeSmallClusters_terminates_witness:
  "mergeScan [examplePoint, examplePoint] DEFAULT_CONFIG [[0], [1]] 0 = Some [[0, 1]] \<and>
   length [[0, 1 :: nat]] < length [[0], [1 :: nat]] \<and>
   mergeScan [examplePoint, examplePoint] DEFAULT_CONFIG [[0, 1]] 0 = None \<and>
   mergeWhile [examplePoint, examplePoint] DEFAULT_CONFIG [[0, 1]] = [[0, 1]] \<and>
   mergeWhileFuel 3 [examplePoint, examplePoint] DEFAULT_CONFIG [[0], [1]] = Some [[0, 1]]"
  using mergeSmallClusters_terminates [of "[examplePoint, examplePoint]" DEFAULT_CONFIG "[[0], [1]]" "[[0, 1]]" "[[0], [1]]"]
    mergeSmallClusters_terminates [of "[examplePoint, examplePoint]" DEFAULT_CONFIG "[[0, 1]]" "[]" "[]"]
  by (simp add: mergeScan_twin mergeScan_single numeral_3_eq_3 
      mergeWhile_Some [OF mergeScan_twin] mergeWhile_None [OF mergeScan_single])

section \<open>The overall bounds of the planned zones\<close>

text \<open>
  Claim C6. For a list of points that is not empty, \<open>calculateOverallBounds\<close> of the
  zones that \<open>planZones\<close> returns is \<open>calculateBounds\<close> of the points: the zones
  partition the points and the bounds of a zone are the extremes over its points, so the
  extremes over the zones are the extremes over all points.
\<close>

theorem overall_bounds_of_zones:
  assumes "pois \<noteq> []"
  shows "calculateOverallBounds (planZones calculateCenter calculateZoom pois config) =
         Some (calculateBounds pois)"
proof -
  let ?zs = "planZones calculateCenter calculateZoom pois config"
  let ?cs = "clusterPOIs pois (mergeConfig config)"
  let ?bs = "map bounds ?zs"
  have parts: "\<forall>c \<in> set ?cs. c \<noteq> []" "set (concat ?cs) = {0 ..< length pois}"
    using clusterPOIs_sizes [of pois "mergeConfig config"] clusterPOIs_set [of pois "mergeConfig config"]
    by blast+
  have cs: "?cs \<noteq> []" using parts(2) assms by auto
  have bs: "set ?bs = set (map (\<lambda>c. calculateBounds (map (\<lambda>i. pois ! i) c)) ?cs)"
    by (simp only: bounds_planZones [OF assms] set_js_sort)
  have "length ?bs = length ?cs"
    by (simp only: bounds_planZones [OF assms] length_js_sort length_map)
  then have zs: "?zs \<noteq> []" using cs by auto
  let ?o = "foldl overallStep initialBounds ?zs"
  have sel: "map (\<lambda>z. sel (bounds z)) ?zs = map sel ?bs" for sel :: "Bounds \<Rightarrow> number"
    by simp
  have n: "north ?o = Finite (Max (set (map lat pois)))"
    unfolding overall_fields sel
    using overall_extreme_Max [where sel = north and crd = lat, OF _ cs parts bs]
    by (simp add: calculateBounds_nonempty initialBounds_def)
  have s: "south ?o = Finite (Min (set (map lat pois)))"
    unfolding overall_fields sel
    using overall_extreme_Min [where sel = south and crd = lat, OF _ cs parts bs]
    by (simp add: calculateBounds_nonempty initialBounds_def)
  have e: "east ?o = Finite (Max (set (map lng pois)))"
    unfolding overall_fields sel
    using overall_extreme_Max [where sel = east and crd = lng, OF _ cs parts bs]
    by (simp add: calculateBounds_nonempty initialBounds_def)
  have w: "west ?o = Finite (Min (set (map lng pois)))"
    unfolding overall_fields sel
    using overall_extreme_Min [where sel = west and crd = lng, OF _ cs parts bs]
    by (simp add: calculateBounds_nonempty initialBounds_def)
  have "?o = calculateBounds pois"
    using n s e w by (cases ?o) (simp add: calculateBounds_nonempty [OF assms])
  then show ?thesis using zs by (simp add: calculateOverallBounds_def)
qed

theorem overall_bounds_of_zones_witness:
  "[examplePoint] \<noteq> [] \<and>
   calculateOverallBounds (planZones midpointCenter constantZoom [examplePoint] None) =
     Some \<lparr>north = Finite 43.65, south = Finite 43.65, east = Finite (-79.38), west = Finite (-79.38)\<rparr>"
  using overall_bounds_of_zones [of "[examplePoint]" midpointCenter constantZoom None]
  by (simp add: calculateBounds_def boundsStep_def initialBounds_def examplePoint_def)

section \<open>Determinism\<close>



section \<open>Two points ten metres apart\<close>

text \<open>
  Claim C8, as amended. For two points at a haversine distance of 10 m, \<open>planZones\<close>
  with the default configuration returns exactly one zone. Its indices are the index of
  the seed, which is the northernmost point, and then the index of the other point:
  \<open>[0, 1]\<close> when the first point is not south of the second, \<open>[1, 0]\<close> when the
  second point lies north of the first.
\<close>

theorem planZones_two_near_points:
  assumes "haversineDistance (lat p0) (lng p0) (lat p1) (lng p1) = 10"
  shows "map poiIndices (planZones calculateCenter calculateZoom [p0, p1] None) =
         [if lat p0 < lat p1 then [1, 0] else [0, 1]]"
proof -
  have g: "greedyClusters [p0, p1] (mergeConfig None) = [if lat p0 < lat p1 then [1, 0] else [0, 1]]"
    using assms by (intro greedyClusters_pair) (simp_all add: mergeConfig_def)
  then have c: "clusterPOIs [p0, p1] (mergeConfig None) = [if lat p0 < lat p1 then [1, 0] else [0, 1]]"
    by (simp add: clusterPOIs_greedy mergeSmallClusters_def)
  have "map poiIndices (planZones calculateCenter calculateZoom [p0, p1] None) =
     map poiIndices (js_sort zoneCompare
          (map (buildZone calculateCenter calculateZoom [p0, p1] (mergeConfig None))
             (enumerate 0 (clusterPOIs [p0, p1] (mergeConfig None)))))"
    by (simp only: planZones_nonempty [of "[p0, p1]", simplified] poiIndices_relabel)
  then show ?thesis unfolding c by (simp add: js_sort_def)
qed

theorem planZones_two_near_points_witness:
  "haversineDistance (lat northPoint) (lng northPoint) (lat originPoint) (lng originPoint) = 10 \<and>
   map poiIndices (planZones midpointCenter constantZoom [northPoint, originPoint] None) = [[0, 1]]"
proof -
  have d: "haversineDistance (lat northPoint) (lng northPoint) (lat originPoint) (lng originPoint) = 10"
    using haversineDistance_northPoint by (simp only: haversineDistance_sym [of "lat northPoint"])
  have "\<not> lat northPoint < lat originPoint" by (simp add: northPoint_def originPoint_def)
  then show ?thesis
    using d planZones_two_near_points [OF d, of midpointCenter constantZoom] by simp
qed

text \<open>
  The claim as stated, \<open>[0, 1]\<close> for every two such points, fails when the second point
  is the northern one: for the origin and the point 10 m to its north the zone's indices
  are \<open>[1, 0]\<close>.
\<close>

theorem planZones_two_near_points_counterexample:
  "haversineDistance (lat originPoint) (lng originPoint) (lat northPoint) (lng northPoint) = 10 \<and>
   map poiIndices (planZones midpointCenter constantZoom [originPoint, northPoint] None) \<noteq> [[0, 1]]"
proof -
  have "greedyClusters [originPoint, northPoint] (mergeConfig None) =
        [if lat originPoint < lat northPoint then [1, 0] else [0, 1]]"
    using haversineDistance_northPoint by (intro greedyClusters_pair) (simp_all add: mergeConfig_def)
  moreover have "lat originPoint < lat northPoint" by (simp add: northPoint_def originPoint_def)
  ultimately have c: "clusterPOIs [originPoint, northPoint] (mergeConfig None) = [[1, 0]]"
    by (simp add: clusterPOIs_greedy mergeSmallClusters_def)
  have "map poiIndices (planZones midpointCenter constantZoom [originPoint, northPoint] None) =
     map poiIndices (js_sort zoneCompare
          (map (buildZone midpointCenter constantZoom [originPoint, northPoint] (mergeConfig None))
             (enumerate 0 (clusterPOIs [originPoint, northPoint] (mergeConfig None)))))"
    by (simp only: planZones_nonempty [of "[originPoint, northPoint]", simplified] poiIndices_relabel)
  then have "map poiIndices (planZones midpointCenter constantZoom [originPoint, northPoint] None) = [[1, 0]]"
    unfolding c by (simp add: js_sort_def)
  then show ?thesis using haversineDistance_northPoint by simp
qed

section \<open>The overall bounds\<close>

text \<open>
  Claim C9. \<open>calculateOverallBounds\<close> returns \<open>null\<close> exactly for the empty zone list.
  For a zone list that is not empty it returns a bounding box of all the zones: no zone's
  bounds reach further north, south, east or west than the box.
\<close>

theorem calculateOverallBounds_null_iff_empty:
  "(calculateOverallBounds zones = None \<longleftrightarrow> zones = []) \<and>
   (zones \<noteq> [] \<longrightarrow>
     (\<exists>b. calculateOverallBounds zones = Some b \<and>
        (\<forall>z \<in> set zones.
           \<not> js_gt (north (bounds z)) (north b) \<and> \<not> js_lt (south (bounds z)) (south b) \<and>
           \<not> js_gt (east (bounds z)) (east b) \<and> \<not> js_lt (west (bounds z)) (west b))))"
proof -
  let ?b = "foldl overallStep initialBounds zones"
  have n: "\<forall>z \<in> set zones. \<not> js_gt (north (bounds z)) (north ?b)"
    using foldl_accMax_upper [of NegInfinity "map (\<lambda>z. north (bounds z)) zones"]
    by (simp add: overall_fields initialBounds_def)
  have s: "\<forall>z \<in> set zones. \<not> js_lt (south (bounds z)) (south ?b)"
    using foldl_accMin_lower [of Infinity "map (\<lambda>z. south (bounds z)) zones"]
    by (simp add: overall_fields initialBounds_def)
  have e: "\<forall>z \<in> set zones. \<not> js_gt (east (bounds z)) (east ?b)"
    using foldl_accMax_upper [of NegInfinity "map (\<lambda>z. east (bounds z)) zones"]
    by (simp add: overall_fields initialBounds_def)
  have w: "\<forall>z \<in> set zones. \<not> js_lt (west (bounds z)) (west ?b)"
    using foldl_accMin_lower [of Infinity "map (\<lambda>z. west (bounds z)) zones"]
    by (simp add: overall_fields initialBounds_def)
  show ?thesis using n s e w by (simp add: calculateOverallBounds_def)
qed


theorem calculateOverallBounds_witness:
  "[zoneA] \<noteq> [] \<and> calculateOverallBounds [zoneA] \<noteq> None \<and>
   calculateOverallBounds [zoneA] = Some \<lparr>north = Finite 2, south = Finite 1, east = Finite 4, west = Finite 3\<rparr>"
  using calculateOverallBounds_null_iff_empty [of "[zoneA]"]
  by (simp add: calculateOverallBounds_def overallStep_def initialBounds_def zoneA_def)

section \<open>Resolving the points of a zone\<close>

text \<open>
  Claim C10. \<open>getZonePOIs\<close> checks no index: the result has one element for every
  index of the zone, in the zone's order, and the element at an index that lies past the
  end of the points array is \<open>undefined\<close>; nothing is raised.
\<close>

theorem getZonePOIs_no_bounds_check:
  "length (getZonePOIs pois zone) = length (poiIndices zone) \<and>
   (\<forall>k < length (poiIndices zone).
      getZonePOIs pois zone ! k =
        (if poiIndices zone ! k < length pois then Some (pois ! (poiIndices zone ! k)) else None))"
  by (simp add: getZonePOIs_def)

theorem getZonePOIs_witness:
  "(1::nat) < length (poiIndices (zoneA\<lparr>poiIndices := [1, 5, 0]\<rparr>)) \<and>
   getZonePOIs [10, 20 :: nat] (zoneA\<lparr>poiIndices := [1, 5, 0]\<rparr>) ! 1 = None"
  using getZonePOIs_no_bounds_check [of "[10, 20 :: nat]" "zoneA\<lparr>poiIndices := [1, 5, 0]\<rparr>"]
  by simp

end
